theory Spec2Isabelle
  imports Complex_Main "HOL-Library.Word"
begin

section \<open>Exceptions and wall-clock time\<close>

text \<open>
  The schedule engine of \<^verbatim>\<open>scraper.py\<close> works on \<^verbatim>\<open>datetime\<close> values that all
  carry the one \<^verbatim>\<open>tzinfo\<close> object \<^verbatim>\<open>config.TZ\<close>. Python compares, subtracts and
  shifts such values on their wall-clock fields alone, so a \<^verbatim>\<open>datetime\<close> is modelled
  by the number of microseconds of wall-clock time since \<^verbatim>\<open>0001-01-01 00:00\<close>
  (\<^verbatim>\<open>datetime.min\<close>), and a \<^verbatim>\<open>timedelta\<close> by a number of microseconds.
  An exception is modelled by its class; the message is dropped. The last four classes
  stand for what the HTTP client raises.
\<close>

datatype error =
    ValueError
  | OverflowError
  | AttributeError
  | TypeError
  | TimeoutError
  | ClientResponseError
  | ContentTypeError
  | JSONDecodeError

type_synonym datetime = int
type_synonym timedelta = int

definition us_per_minute :: int where
  "us_per_minute = 60000000"

definition us_per_hour :: int where
  "us_per_hour = 3600000000"

definition us_per_day :: int where
  "us_per_day = 86400000000"

definition HALF_HOUR :: timedelta where
  "HALF_HOUR = 30 * us_per_minute"

definition one_day :: timedelta where
  "one_day = 1 * us_per_day"

text \<open>\<^verbatim>\<open>datetime.max\<close> is \<^verbatim>\<open>9999-12-31 23:59:59.999999\<close>, the last microsecond of
  ordinal day 3652059.\<close>

definition dt_max :: datetime where
  "dt_max = 3652059 * us_per_day - 1"

text \<open>\<^verbatim>\<open>dt + delta\<close>: Python raises \<^verbatim>\<open>OverflowError\<close> when the result leaves
  \<^verbatim>\<open>datetime.min .. datetime.max\<close>.\<close>

definition dt_add :: "datetime \<Rightarrow> timedelta \<Rightarrow> error + datetime" where
  "dt_add dt delta =
     (if 0 \<le> dt + delta \<and> dt + delta \<le> dt_max then Inr (dt + delta) else Inl OverflowError)"

definition hour :: "datetime \<Rightarrow> int" where
  "hour dt = (dt div us_per_hour) mod 24"

definition minute :: "datetime \<Rightarrow> int" where
  "minute dt = (dt div us_per_minute) mod 60"

text \<open>\<^verbatim>\<open>dt.replace(minute=m, second=0, microsecond=0)\<close>: the date and the hour stay.\<close>

definition replace_minute :: "datetime \<Rightarrow> int \<Rightarrow> datetime" where
  "replace_minute dt m = dt - dt mod us_per_hour + m * us_per_minute"

subsection \<open>Parsing a date\<close>

text \<open>
  \<^verbatim>\<open>datetime.strptime(date_str, "%Y-%m-%d")\<close> on ASCII text. The library matches the
  regular expressions \<^verbatim>\<open>\d\d\d\d\<close>, \<^verbatim>\<open>1[0-2]|0[1-9]|[1-9]\<close> and
  \<^verbatim>\<open>3[0-1]|[1-2]\d|0[1-9]|[1-9]| [1-9]\<close> around two dashes, refuses text that is left
  over, and then refuses the year 0 and a day the month does not have, each time with
  \<^verbatim>\<open>ValueError\<close>. Strings are byte strings here; digits outside ASCII, which the library
  also reads, are not modelled.
\<close>

fun split_on :: "char \<Rightarrow> string \<Rightarrow> string list" where
  "split_on c [] = [[]]"
| "split_on c (x # xs) =
     (if x = c then [] # split_on c xs
      else (case split_on c xs of [] \<Rightarrow> [[x]] | w # ws \<Rightarrow> (x # w) # ws))"

definition is_digit :: "char \<Rightarrow> bool" where
  "is_digit c = (48 \<le> (of_char c :: nat) \<and> (of_char c :: nat) \<le> 57)"

definition digits_value :: "string \<Rightarrow> int" where
  "digits_value s = foldl (\<lambda>acc c. 10 * acc + (int (of_char c) - 48)) 0 s"

definition month_field :: "string \<Rightarrow> bool" where
  "month_field s =
     ((length s = 1 \<or> length s = 2) \<and> list_all is_digit s \<and>
      1 \<le> digits_value s \<and> digits_value s \<le> 12)"

definition day_field :: "string \<Rightarrow> bool" where
  "day_field s =
     (((length s = 1 \<or> length s = 2) \<and> list_all is_digit s \<and>
       1 \<le> digits_value s \<and> digits_value s \<le> 31) \<or>
      (length s = 2 \<and> hd s = CHR '' '' \<and> list_all is_digit (tl s) \<and> 1 \<le> digits_value (tl s)))"

definition is_leap :: "int \<Rightarrow> bool" where
  "is_leap y = (y mod 4 = 0 \<and> (y mod 100 \<noteq> 0 \<or> y mod 400 = 0))"

definition days_in_month :: "int \<Rightarrow> int \<Rightarrow> int" where
  "days_in_month y m =
     (if m = 2 then (if is_leap y then 29 else 28)
      else if m = 4 \<or> m = 6 \<or> m = 9 \<or> m = 11 then 30 else 31)"

definition days_before_year :: "int \<Rightarrow> int" where
  "days_before_year y = (y - 1) * 365 + (y - 1) div 4 - (y - 1) div 100 + (y - 1) div 400"

definition days_before_month :: "int \<Rightarrow> int \<Rightarrow> int" where
  "days_before_month y m = (\<Sum>k \<leftarrow> [1..<nat m]. days_in_month y (int k))"

definition ymd2ord :: "int \<Rightarrow> int \<Rightarrow> int \<Rightarrow> int" where
  "ymd2ord y m d = days_before_year y + days_before_month y m + d"

definition strptime_ymd :: "string \<Rightarrow> error + (int \<times> int \<times> int)" where
  "strptime_ymd s =
     (case split_on CHR ''-'' s of
        [ys, ms, ds] \<Rightarrow>
          if length ys = 4 \<and> list_all is_digit ys \<and> month_field ms \<and> day_field ds then
            (let y = digits_value ys; m = digits_value ms;
                 d = digits_value (if hd ds = CHR '' '' then tl ds else ds)
             in if y < 1 then Inl ValueError
                else if days_in_month y m < d then Inl ValueError
                else Inr (y, m, d))
          else Inl ValueError
      | _ \<Rightarrow> Inl ValueError)"

text \<open>\<^verbatim>\<open>_date_to_dt\<close>: midnight of the parsed day, tagged with the zone.\<close>

definition date_to_dt :: "string \<Rightarrow> error + datetime" where
  "date_to_dt date_str =
     (case strptime_ymd date_str of
        Inl e \<Rightarrow> Inl e
      | Inr (y, m, d) \<Rightarrow> Inr ((ymd2ord y m d - 1) * us_per_day))"

text \<open>\<^verbatim>\<open>_time_str_from_dt\<close>: \<^verbatim>\<open>f"{dt.hour:02d}:{dt.minute:02d}"\<close>; both fields are below 100.\<close>

definition digit_char :: "int \<Rightarrow> char" where
  "digit_char d = char_of (48 + nat d)"

definition two_digits :: "int \<Rightarrow> string" where
  "two_digits n = [digit_char (n div 10), digit_char (n mod 10)]"

definition time_str_from_dt :: "datetime \<Rightarrow> string" where
  "time_str_from_dt dt = two_digits (hour dt) @ '':'' @ two_digits (minute dt)"

text \<open>\<^verbatim>\<open>_round_down_to_half_hour\<close>\<close>

definition round_down_to_half_hour :: "datetime \<Rightarrow> datetime" where
  "round_down_to_half_hour dt =
     (let minute' = (if minute dt < 30 then 0 else 30) in replace_minute dt minute')"

text \<open>\<^verbatim>\<open>_iter_half_hours\<close>: the \<^verbatim>\<open>while cur < end\<close> loop, with the list built so far.\<close>

function iter_loop :: "datetime \<Rightarrow> datetime \<Rightarrow> datetime list \<Rightarrow> error + datetime list" where
  "iter_loop cur end' times' =
     (if cur < end' then
        (case dt_add cur HALF_HOUR of
           Inl e \<Rightarrow> Inl e
         | Inr cur' \<Rightarrow> iter_loop cur' end' (times' @ [cur]))
      else Inr times')"
  by pat_completeness auto
termination
  by (relation "measure (\<lambda>(cur, end', times'). nat (end' - cur))")
     (auto simp: dt_add_def HALF_HOUR_def us_per_minute_def split: if_splits)

definition iter_half_hours :: "datetime \<Rightarrow> error + datetime list" where
  "iter_half_hours day_start =
     (case dt_add day_start one_day of
        Inl e \<Rightarrow> Inl e
      | Inr end' \<Rightarrow> iter_loop day_start end' [])"

section \<open>Intervals of a day\<close>

record interval =
  start :: datetime
  end' :: datetime

text \<open>A day's slots: \<^verbatim>\<open>Dict[str, int]\<close>, from the time of day to the status code.\<close>

type_synonym slot_map = "string \<rightharpoonup> int"

text \<open>\<^verbatim>\<open>int(slots.get(key, 1))\<close>: a key that is missing counts as power on.\<close>

definition slot_status :: "slot_map \<Rightarrow> string \<Rightarrow> int" where
  "slot_status slots key = (case slots key of None \<Rightarrow> 1 | Some v \<Rightarrow> v)"

text \<open>The variables of the loop of \<^verbatim>\<open>_slots_to_off_intervals\<close>.\<close>

record walk =
  intervals :: "interval list"
  in_off :: bool
  off_start :: "datetime option"

definition walk_init :: walk where
  "walk_init = \<lparr>intervals = [], in_off = False, off_start = None\<rparr>"

text \<open>
  One pass of the loop body for the pair \<open>(i, t)\<close> of \<^verbatim>\<open>enumerate(times)\<close>, with
  \<open>n = len(times)\<close>. The source writes \<^verbatim>\<open>day_start + timedelta(days=1)\<close> in the body;
  \<^verbatim>\<open>_iter_half_hours\<close> has computed the same sum before the loop starts, so it is
  passed in as \<open>day_end\<close>.
\<close>

definition walk_step :: "slot_map \<Rightarrow> datetime \<Rightarrow> nat \<Rightarrow> nat \<times> datetime \<Rightarrow> walk \<Rightarrow> walk" where
  "walk_step slots day_end n it w =
     (case it of (i, t) \<Rightarrow>
        let key = time_str_from_dt t;
            status = slot_status slots key;
            is_off = (status = 2);
            w1 = (if is_off \<and> \<not> in_off w
                  then w\<lparr>in_off := True, off_start := Some t\<rparr> else w);
            w2 = (if \<not> is_off \<and> in_off w1
                  then w1\<lparr>intervals := intervals w1 @ [\<lparr>start = the (off_start w1), end' = t\<rparr>],
                          in_off := False, off_start := None\<rparr>
                  else w1)
        in (if int i = int n - 1 \<and> in_off w2
            then w2\<lparr>intervals := intervals w2 @ [\<lparr>start = the (off_start w2), end' = day_end\<rparr>]\<rparr>
            else w2))"

definition walk_all :: "slot_map \<Rightarrow> datetime \<Rightarrow> datetime list \<Rightarrow> walk" where
  "walk_all slots day_end times' =
     fold (walk_step slots day_end (length times')) (enumerate 0 times') walk_init"

text \<open>The state in which the loop of \<^verbatim>\<open>_slots_to_off_intervals\<close> ends.\<close>

definition off_walk :: "string \<Rightarrow> slot_map \<Rightarrow> error + walk" where
  "off_walk date_str slots =
     (case date_to_dt date_str of
        Inl e \<Rightarrow> Inl e
      | Inr day_start \<Rightarrow>
          (case iter_half_hours day_start of
             Inl e \<Rightarrow> Inl e
           | Inr times' \<Rightarrow>
               (case dt_add day_start one_day of
                  Inl e \<Rightarrow> Inl e
                | Inr day_end \<Rightarrow> Inr (walk_all slots day_end times'))))"

definition slots_to_off_intervals :: "string \<Rightarrow> slot_map \<Rightarrow> error + interval list" where
  "slots_to_off_intervals date_str slots =
     (case off_walk date_str slots of Inl e \<Rightarrow> Inl e | Inr w \<Rightarrow> Inr (intervals w))"

text \<open>
  \<^verbatim>\<open>_total_minutes\<close>. \<^verbatim>\<open>(it.end - it.start).total_seconds() // 60\<close> is the floor of the
  difference in minutes; the floating-point quotient is exact on the whole seconds that
  half-hour boundaries differ by.
\<close>

definition total_minutes :: "interval list \<Rightarrow> int" where
  "total_minutes ivs = fold (\<lambda>it total. total + (end' it - start it) div us_per_minute) ivs 0"

section \<open>The schedule evaluator\<close>

text \<open>\<^verbatim>\<open>_find_next_outage\<close>: the \<^verbatim>\<open>for\<close> loop that returns at the first start after
  \<open>now\<close>, over the intervals of both days sorted by start (Python's sort is stable, as
  insertion sort is).\<close>

fun first_start_after :: "datetime \<Rightarrow> interval list \<Rightarrow> datetime option" where
  "first_start_after now [] = None"
| "first_start_after now (it # rest) =
     (if start it > now then Some (start it) else first_start_after now rest)"

definition find_next_outage :: "datetime \<Rightarrow> interval list \<Rightarrow> interval list \<Rightarrow> datetime option" where
  "find_next_outage now today_off tomorrow_off =
     (let all_intervals = sort_key start (today_off @ tomorrow_off)
      in first_start_after now all_intervals)"

text \<open>
  \<^verbatim>\<open>_is_now_has_power\<close>. In the chained comparison
  \<^verbatim>\<open>today_start <= now_rounded < today_start + timedelta(days=1)\<close> Python computes the
  sum only when the first comparison holds.
\<close>

definition is_now_has_power :: "datetime \<Rightarrow> string \<Rightarrow> slot_map \<Rightarrow> error + bool" where
  "is_now_has_power now date_today slots_today =
     (let now_rounded = round_down_to_half_hour now in
      case date_to_dt date_today of
        Inl e \<Rightarrow> Inl e
      | Inr today_start \<Rightarrow>
          if today_start \<le> now_rounded then
            (case dt_add today_start one_day of
               Inl e \<Rightarrow> Inl e
             | Inr day_end \<Rightarrow>
                 if \<not> (now_rounded < day_end) then Inr True
                 else (let key = time_str_from_dt now_rounded;
                           status = slot_status slots_today key
                       in Inr (status = 1)))
          else Inr True)"

text \<open>
  The minutes until the next outage, from \<^verbatim>\<open>get_schedule\<close>:
  \<^verbatim>\<open>int(((next_outage_start - now).total_seconds() + 59) // 60)\<close> and then
  \<^verbatim>\<open>max(delta_min, 0)\<close>. The seconds are a float with a fractional part; the floor of
  \<open>(seconds + 59) / 60\<close> is taken on the exact value, in microseconds.
\<close>

definition next_outage_in_minutes :: "datetime \<Rightarrow> datetime option \<Rightarrow> int option" where
  "next_outage_in_minutes now next_outage_start =
     (case next_outage_start of
        None \<Rightarrow> None
      | Some s \<Rightarrow>
          (let delta_min = ((s - now) + 59 * 1000000) div (60 * 1000000)
           in Some (max delta_min 0)))"

section \<open>The change fingerprint\<close>

unbundle bit_operations_syntax

text \<open>\<^verbatim>\<open>f"{status}"\<close> for an \<^verbatim>\<open>int\<close>: the decimal digits, after a minus sign when negative
  (the interpreter's limit on the number of digits, 4300 by default, is not modelled).\<close>

fun nat_digits :: "nat \<Rightarrow> string" where
  "nat_digits n = (if n < 10 then [digit_char (int n)]
                   else nat_digits (n div 10) @ [digit_char (int (n mod 10))])"

definition str_int :: "int \<Rightarrow> string" where
  "str_int i = (if i < 0 then CHR ''-'' # nat_digits (nat (- i)) else nat_digits (nat i))"

text \<open>\<^verbatim>\<open>sep.join(parts)\<close>\<close>

fun join :: "string \<Rightarrow> string list \<Rightarrow> string" where
  "join sep [] = []"
| "join sep [p] = p"
| "join sep (p # q # ps) = p @ sep @ join sep (q # ps)"

text \<open>\<^verbatim>\<open>_slots_normalized_for_hash\<close>: one part per half hour of the day, in order.\<close>

definition slot_part :: "string \<Rightarrow> slot_map \<Rightarrow> datetime \<Rightarrow> string" where
  "slot_part date_str slots t =
     (let key = time_str_from_dt t;
          status = slot_status slots key
      in date_str @ '' '' @ key @ ''='' @ str_int status)"

definition slots_normalized_for_hash :: "string \<Rightarrow> slot_map \<Rightarrow> error + string" where
  "slots_normalized_for_hash date_str slots =
     (case date_to_dt date_str of
        Inl e \<Rightarrow> Inl e
      | Inr day_start \<Rightarrow>
          (case iter_half_hours day_start of
             Inl e \<Rightarrow> Inl e
           | Inr times' \<Rightarrow> Inr (join ''|'' (map (slot_part date_str slots) times'))))"

subsection \<open>SHA-256\<close>

text \<open>
  \<^verbatim>\<open>hashlib.sha256(s.encode("utf-8")).hexdigest()\<close>, after FIPS 180-4. A string is its
  UTF-8 bytes already, so the encoding is the identity.
\<close>

type_synonym w32 = "32 word"
type_synonym sha_state = "w32 \<times> w32 \<times> w32 \<times> w32 \<times> w32 \<times> w32 \<times> w32 \<times> w32"

text \<open>
  The constants are the first 32 bits of the fractional parts of the cube roots (for the
  64 round constants) and of the square roots (for the 8 initial hash values) of the
  first primes: \<open>\<lfloor>p\<^bsup>1/e\<^esup> \<sqdot> 2\<^bsup>32\<^esup>\<rfloor> mod 2\<^bsup>32\<^esup>\<close>, the integer root found by bisection.
\<close>

fun iroot :: "nat \<Rightarrow> nat \<Rightarrow> int \<Rightarrow> int \<Rightarrow> int \<Rightarrow> int" where
  "iroot 0 e n lo hi = lo"
| "iroot (Suc fuel) e n lo hi =
     (let mid = (lo + hi) div 2
      in if mid ^ e \<le> n then iroot fuel e n mid hi else iroot fuel e n lo mid)"

definition frac_root_bits :: "nat \<Rightarrow> int \<Rightarrow> w32" where
  "frac_root_bits e p = word_of_int (iroot 40 e (p * 2 ^ (32 * e)) 0 (2 ^ 40))"

definition is_prime :: "int \<Rightarrow> bool" where
  "is_prime p = (2 \<le> p \<and> list_all (\<lambda>d. p mod d \<noteq> 0) [2..p - 1])"

definition sha_primes :: "int list" where
  "sha_primes = filter is_prime [2..311]"

definition sha_K :: "w32 list" where
  "sha_K = map (frac_root_bits 3) sha_primes"

definition sha_H0 :: sha_state where
  "sha_H0 =
     (case map (frac_root_bits 2) (take 8 sha_primes) of
        [a, b, c, d, e, f, g, h] \<Rightarrow> (a, b, c, d, e, f, g, h)
      | _ \<Rightarrow> (0, 0, 0, 0, 0, 0, 0, 0))"

definition rotr :: "nat \<Rightarrow> w32 \<Rightarrow> w32" where
  "rotr n x = drop_bit n x OR push_bit (32 - n) x"

definition ssig0 :: "w32 \<Rightarrow> w32" where
  "ssig0 x = rotr 7 x XOR rotr 18 x XOR drop_bit 3 x"

definition ssig1 :: "w32 \<Rightarrow> w32" where
  "ssig1 x = rotr 17 x XOR rotr 19 x XOR drop_bit 10 x"

definition bsig0 :: "w32 \<Rightarrow> w32" where
  "bsig0 x = rotr 2 x XOR rotr 13 x XOR rotr 22 x"

definition bsig1 :: "w32 \<Rightarrow> w32" where
  "bsig1 x = rotr 6 x XOR rotr 11 x XOR rotr 25 x"

definition ch :: "w32 \<Rightarrow> w32 \<Rightarrow> w32 \<Rightarrow> w32" where
  "ch x y z = (x AND y) XOR (NOT x AND z)"

definition maj :: "w32 \<Rightarrow> w32 \<Rightarrow> w32 \<Rightarrow> w32" where
  "maj x y z = (x AND y) XOR (x AND z) XOR (y AND z)"

text \<open>Padding: the byte \<open>0x80\<close>, zeros up to 56 modulo 64, the bit length in 8 bytes.\<close>

definition be_bytes :: "nat \<Rightarrow> int \<Rightarrow> int list" where
  "be_bytes n v = map (\<lambda>i. (v div 256 ^ (n - 1 - i)) mod 256) [0..<n]"

definition sha_pad :: "int list \<Rightarrow> int list" where
  "sha_pad bs =
     bs @ [128] @ replicate ((119 - length bs mod 64) mod 64) 0 @ be_bytes 8 (8 * int (length bs))"

fun be_words :: "int list \<Rightarrow> w32 list" where
  "be_words (a # b # c # d # rest) =
     word_of_int (((a * 256 + b) * 256 + c) * 256 + d) # be_words rest"
| "be_words _ = []"

fun sha_blocks :: "nat \<Rightarrow> w32 list \<Rightarrow> w32 list list" where
  "sha_blocks 0 ws = []"
| "sha_blocks (Suc n) ws = take 16 ws # sha_blocks n (drop 16 ws)"

text \<open>The message schedule: 48 more words after the block's 16.\<close>

fun sha_extend :: "nat \<Rightarrow> w32 list \<Rightarrow> w32 list" where
  "sha_extend 0 w = w"
| "sha_extend (Suc n) w =
     (let t = length w
      in sha_extend n
           (w @ [ssig1 (w ! (t - 2)) + w ! (t - 7) + ssig0 (w ! (t - 15)) + w ! (t - 16)]))"

definition sha_round :: "sha_state \<Rightarrow> w32 \<times> w32 \<Rightarrow> sha_state" where
  "sha_round s kw =
     (case s of (a, b, c, d, e, f, g, h) \<Rightarrow>
        let t1 = h + bsig1 e + ch e f g + fst kw + snd kw;
            t2 = bsig0 a + maj a b c
        in (t1 + t2, a, b, c, d + t1, e, f, g))"

definition sha_compress :: "sha_state \<Rightarrow> w32 list \<Rightarrow> sha_state" where
  "sha_compress s block =
     (case s of (a, b, c, d, e, f, g, h) \<Rightarrow>
        case foldl sha_round s (zip sha_K (sha_extend 48 block)) of
          (a', b', c', d', e', f', g', h') \<Rightarrow>
            (a + a', b + b', c + c', d + d', e + e', f + f', g + g', h + h'))"

definition sha256 :: "string \<Rightarrow> sha_state" where
  "sha256 msg =
     (let bs = sha_pad (map of_char msg)
      in foldl sha_compress sha_H0 (sha_blocks (length bs div 64) (be_words bs)))"

definition hex_char :: "int \<Rightarrow> char" where
  "hex_char n = (if n < 10 then char_of (48 + n) else char_of (87 + n))"

definition hex32 :: "w32 \<Rightarrow> string" where
  "hex32 x = map (\<lambda>i. hex_char ((uint x div 16 ^ (7 - i)) mod 16)) [0..<8]"

definition hexdigest :: "sha_state \<Rightarrow> string" where
  "hexdigest s =
     (case s of (a, b, c, d, e, f, g, h) \<Rightarrow> concat (map hex32 [a, b, c, d, e, f, g, h]))"

text \<open>\<^verbatim>\<open>_hash_schedule\<close>\<close>

definition hash_schedule :: "string \<Rightarrow> slot_map \<Rightarrow> string \<Rightarrow> slot_map \<Rightarrow> error + string" where
  "hash_schedule date_today slots_today date_tomorrow slots_tomorrow =
     (case slots_normalized_for_hash date_today slots_today of
        Inl e \<Rightarrow> Inl e
      | Inr a \<Rightarrow>
          (case slots_normalized_for_hash date_tomorrow slots_tomorrow of
             Inl e \<Rightarrow> Inl e
           | Inr b \<Rightarrow> (let s = a @ ''||'' @ b in Inr (hexdigest (sha256 s)))))"

section \<open>The feed: payload, extraction and cache\<close>
















subsection \<open>The cache of raw payloads\<close>




section \<open>Notions used in the statements and proofs\<close>

text \<open>
  The \<open>k\<close>-th half-hour boundary of a day, whether its slot is off, and the state of
  the loop of \<^verbatim>\<open>_slots_to_off_intervals\<close> after \<open>k\<close> passes. The loop body is split
  into its first two tests (\<open>walk_body\<close>) and the last one (\<open>walk_finish\<close>), which
  only the last pass can take.
\<close>

definition slot_time :: "datetime \<Rightarrow> nat \<Rightarrow> datetime" where
  "slot_time day_start k = day_start + int k * HALF_HOUR"

definition slot_off :: "slot_map \<Rightarrow> datetime \<Rightarrow> nat \<Rightarrow> bool" where
  "slot_off slots day_start k = (slot_status slots (time_str_from_dt (slot_time day_start k)) = 2)"

definition walk_prefix :: "slot_map \<Rightarrow> datetime \<Rightarrow> nat \<Rightarrow> walk" where
  "walk_prefix slots day_start k =
     fold (walk_step slots (slot_time day_start 48) 48)
       (take k (enumerate 0 (map (slot_time day_start) [0..<48]))) walk_init"

definition walk_body :: "slot_map \<Rightarrow> datetime \<Rightarrow> walk \<Rightarrow> walk" where
  "walk_body slots t w =
     (let is_off = (slot_status slots (time_str_from_dt t) = 2);
          w1 = (if is_off \<and> \<not> in_off w then w\<lparr>in_off := True, off_start := Some t\<rparr> else w)
      in (if \<not> is_off \<and> in_off w1
          then w1\<lparr>intervals := intervals w1 @ [\<lparr>start = the (off_start w1), end' = t\<rparr>],
                  in_off := False, off_start := None\<rparr>
          else w1))"

definition walk_finish :: "datetime \<Rightarrow> walk \<Rightarrow> walk" where
  "walk_finish day_end w =
     (if in_off w
      then w\<lparr>intervals := intervals w @ [\<lparr>start = the (off_start w), end' = day_end\<rparr>]\<rparr>
      else w)"

primrec body_prefix :: "slot_map \<Rightarrow> datetime \<Rightarrow> nat \<Rightarrow> walk" where
  "body_prefix slots d 0 = walk_init"
| "body_prefix slots d (Suc k) = walk_body slots (slot_time d k) (body_prefix slots d k)"

definition run_start :: "slot_map \<Rightarrow> datetime \<Rightarrow> nat \<Rightarrow> nat \<Rightarrow> bool" where
  "run_start slots d a k =
     (a < k \<and> (\<forall>i. a \<le> i \<and> i < k \<longrightarrow> slot_off slots d i) \<and> (a = 0 \<or> \<not> slot_off slots d (a - 1)))"

definition off_run :: "slot_map \<Rightarrow> datetime \<Rightarrow> nat \<Rightarrow> nat \<Rightarrow> bool" where
  "off_run slots d a b =
     (run_start slots d a b \<and> b \<le> 48 \<and> (b = 48 \<or> \<not> slot_off slots d b))"

definition separated :: "interval list \<Rightarrow> bool" where
  "separated ivs = sorted_wrt (\<lambda>x y. end' x < start y) ivs"

definition off_count :: "slot_map \<Rightarrow> datetime \<Rightarrow> nat \<Rightarrow> nat" where
  "off_count slots d k = length (filter (slot_off slots d) [0..<k])"

text \<open>The key of the \<open>k\<close>-th slot of a day, as \<^verbatim>\<open>_time_str_from_dt\<close> renders it.\<close>

definition slot_key :: "nat \<Rightarrow> string" where
  "slot_key k = two_digits (int (k div 2)) @ '':'' @ two_digits (30 * int (k mod 2))"

text \<open>The minutes until the next outage as the specification words them: the duration
  from \<open>now\<close> to the start, rounded up to whole minutes, and not below zero.\<close>

definition spec_minutes_until :: "datetime \<Rightarrow> datetime \<Rightarrow> int" where
  "spec_minutes_until now s = max \<lceil>(of_int (s - now) :: rat) / of_int us_per_minute\<rceil> 0"










text \<open>The 48 keys of a day, \<^verbatim>\<open>"00:00"\<close> to \<^verbatim>\<open>"23:30"\<close>.\<close>

definition half_hour_keys :: "string list" where
  "half_hour_keys = map slot_key [0..<48]"

text \<open>The string \<open>s\<close> that \<^verbatim>\<open>_hash_schedule\<close> builds and hashes.\<close>

definition schedule_text :: "string \<Rightarrow> slot_map \<Rightarrow> string \<Rightarrow> slot_map \<Rightarrow> error + string" where
  "schedule_text date_today slots_today date_tomorrow slots_tomorrow =
     (case slots_normalized_for_hash date_today slots_today of
        Inl e \<Rightarrow> Inl e
      | Inr a \<Rightarrow>
          (case slots_normalized_for_hash date_tomorrow slots_tomorrow of
             Inl e \<Rightarrow> Inl e
           | Inr b \<Rightarrow> Inr (a @ ''||'' @ b)))"

text \<open>Two parts of the hashed text: the same prefix, then values free of the separator.\<close>

definition same_prefix :: "char \<Rightarrow> string \<Rightarrow> string \<Rightarrow> bool" where
  "same_prefix c x y = (\<exists>p v v'. x = p @ v \<and> y = p @ v' \<and> c \<notin> set v \<and> c \<notin> set v')"

section \<open>The walk over a day\<close>

declare iter_loop.simps [simp del]

lemma HALF_HOUR_val: "HALF_HOUR = 1800000000"
  by (simp add: HALF_HOUR_def us_per_minute_def)

lemma map_upt_shift: "map f [0..<Suc n] = f 0 # map (\<lambda>k. f (Suc k)) [0..<n]"
  by (simp only: upt_conv_Cons [of 0 "Suc n"] map_Suc_upt [symmetric] list.map map_map o_def)

lemma iter_loop_closed:
  "0 \<le> cur \<Longrightarrow> e = cur + int n * HALF_HOUR \<Longrightarrow> e \<le> dt_max \<Longrightarrow>
   iter_loop cur e acc = Inr (acc @ map (slot_time cur) [0..<n])"
proof (induction n arbitrary: cur acc)
  case 0
  then show ?case by (simp add: iter_loop.simps [of cur])
next
  case (Suc n)
  have lt: "cur < e" using Suc.prems by (simp add: HALF_HOUR_val)
  have add: "dt_add cur HALF_HOUR = Inr (cur + HALF_HOUR)"
    using Suc.prems by (simp add: dt_add_def HALF_HOUR_val)
  have "iter_loop (cur + HALF_HOUR) e (acc @ [cur])
        = Inr ((acc @ [cur]) @ map (slot_time (cur + HALF_HOUR)) [0..<n])"
    using Suc.prems by (intro Suc.IH) (simp_all add: HALF_HOUR_val)
  moreover have "map (slot_time cur) [0..<Suc n]
        = cur # map (slot_time (cur + HALF_HOUR)) [0..<n]"
    by (simp only: map_upt_shift) (simp add: slot_time_def algebra_simps)
  ultimately show ?case
    using lt add by (simp add: iter_loop.simps [of cur])
qed

lemma one_day_slots: "one_day = 48 * HALF_HOUR"
  by (simp add: one_day_def HALF_HOUR_def us_per_day_def us_per_minute_def)

lemma iter_half_hours_closed:
  assumes "0 \<le> day_start" "dt_add day_start one_day = Inr day_end"
  shows "iter_half_hours day_start = Inr (map (slot_time day_start) [0..<48])"
    and "day_end = slot_time day_start 48"
proof -
  from assms(2) have e: "day_end = day_start + one_day" and b: "day_start + one_day \<le> dt_max"
    by (auto simp: dt_add_def split: if_splits)
  show "day_end = slot_time day_start 48" using e by (simp add: slot_time_def one_day_slots)
  have "iter_loop day_start day_end [] = Inr ([] @ map (slot_time day_start) [0..<48])"
    using assms(1) e b by (intro iter_loop_closed) (simp_all add: one_day_slots)
  then show "iter_half_hours day_start = Inr (map (slot_time day_start) [0..<48])"
    using assms(2) by (simp add: iter_half_hours_def)
qed

lemma walk_prefix_0: "walk_prefix slots d 0 = walk_init"
  by (simp add: walk_prefix_def)

lemma walk_prefix_Suc:
  assumes "k < 48"
  shows "walk_prefix slots d (Suc k) =
         walk_step slots (slot_time d 48) 48 (k, slot_time d k) (walk_prefix slots d k)"
proof -
  let ?xs = "enumerate 0 (map (slot_time d) [0..<48])"
  have len: "k < length ?xs" using assms by simp
  have nth: "?xs ! k = (k, slot_time d k)" using assms by (simp add: nth_enumerate_eq)
  show ?thesis
    unfolding walk_prefix_def
    by (simp only: take_Suc_conv_app_nth [OF len] fold_append nth o_apply fold.simps id_apply)
qed

lemma walk_all_prefix:
  "walk_all slots (slot_time d 48) (map (slot_time d) [0..<48]) = walk_prefix slots d 48"
  by (simp add: walk_all_def walk_prefix_def)

lemma walk_step_body:
  "walk_step slots e n (i, t) w =
     (if int i = int n - 1 then walk_finish e (walk_body slots t w) else walk_body slots t w)"
  by (simp add: walk_step_def walk_body_def walk_finish_def Let_def)

lemma walk_prefix_body: "k \<le> 47 \<Longrightarrow> walk_prefix slots d k = body_prefix slots d k"
proof (induction k)
  case 0
  then show ?case by (simp add: walk_prefix_0)
next
  case (Suc k)
  then show ?case by (simp add: walk_prefix_Suc walk_step_body)
qed

lemma walk_prefix_48:
  "walk_prefix slots d 48 = walk_finish (slot_time d 48) (body_prefix slots d 48)"
proof -
  have "walk_prefix slots d (Suc 47) =
        walk_step slots (slot_time d 48) 48 (47, slot_time d 47) (walk_prefix slots d 47)"
    by (rule walk_prefix_Suc) simp
  moreover have "body_prefix slots d (Suc 47) = walk_body slots (slot_time d 47) (body_prefix slots d 47)"
    by (rule body_prefix.simps)
  ultimately show ?thesis
    by (simp add: walk_step_body walk_prefix_body)
qed

lemma slot_time_less [simp]: "slot_time d a < slot_time d b \<longleftrightarrow> a < b"
  by (simp add: slot_time_def HALF_HOUR_val)

lemma slot_time_le [simp]: "slot_time d a \<le> slot_time d b \<longleftrightarrow> a \<le> b"
  by (simp add: slot_time_def HALF_HOUR_val)

lemma slot_time_eq [simp]: "slot_time d a = slot_time d b \<longleftrightarrow> a = b"
  by (simp add: slot_time_def HALF_HOUR_val)

lemma run_start_unique: "run_start slots d a k \<Longrightarrow> run_start slots d a' k \<Longrightarrow> a = a'"
proof (rule ccontr)
  assume r: "run_start slots d a k" "run_start slots d a' k" and ne: "a \<noteq> a'"
  then consider "a < a'" | "a' < a" by linarith
  then show False
  proof cases
    case 1
    then have "a \<le> a' - 1" "a' - 1 < k" "a' \<noteq> 0" using r by (auto simp: run_start_def)
    then show False using r by (auto simp: run_start_def)
  next
    case 2
    then have "a' \<le> a - 1" "a - 1 < k" "a \<noteq> 0" using r by (auto simp: run_start_def)
    then show False using r by (auto simp: run_start_def)
  qed
qed

lemma run_start_Suc:
  "slot_off slots d k \<Longrightarrow> run_start slots d a (Suc k) \<longleftrightarrow> (run_start slots d a k \<or> (a = k \<and> (k = 0 \<or> \<not> slot_off slots d (k - 1))))"
  unfolding run_start_def
  by (metis (no_types, opaque_lifting) le_less_Suc_eq less_Suc_eq less_or_eq_imp_le not_less_eq order_less_irrefl diff_Suc_1 less_Suc_eq_le)

lemma walk_body_cases:
  "walk_body slots (slot_time d k) w =
     (if slot_off slots d k then (if in_off w then w else w\<lparr>in_off := True, off_start := Some (slot_time d k)\<rparr>)
      else (if in_off w
            then w\<lparr>intervals := intervals w @ [\<lparr>start = the (off_start w), end' = slot_time d k\<rparr>],
                   in_off := False, off_start := None\<rparr>
            else w))"
  by (simp add: walk_body_def slot_off_def Let_def)

lemma body_flag:
  "(in_off (body_prefix slots d k) \<longleftrightarrow> 0 < k \<and> slot_off slots d (k - 1)) \<and>
   (in_off (body_prefix slots d k) \<longrightarrow>
      (\<exists>a. off_start (body_prefix slots d k) = Some (slot_time d a) \<and> run_start slots d a k))"
proof (induction k)
  case 0
  then show ?case by (simp add: walk_init_def)
next
  case (Suc k)
  let ?w = "body_prefix slots d k"
  show ?case
  proof (cases "slot_off slots d k")
    case off: True
    show ?thesis
    proof (cases "in_off ?w")
      case True
      with Suc obtain a where "off_start ?w = Some (slot_time d a)" "run_start slots d a k" by blast
      then show ?thesis using off True by (auto simp: walk_body_cases run_start_Suc)
    next
      case False
      then have "k = 0 \<or> \<not> slot_off slots d (k - 1)" using Suc by auto
      then show ?thesis using off False by (auto simp: walk_body_cases run_start_Suc)
    qed
  next
    case False
    then show ?thesis by (auto simp: walk_body_cases)
  qed
qed

lemma body_intervals:
  "set (intervals (body_prefix slots d k)) =
     {\<lparr>start = slot_time d a, end' = slot_time d b\<rparr> | a b.
        run_start slots d a b \<and> \<not> slot_off slots d b \<and> b < k}"
proof (induction k)
  case 0
  then show ?case by (simp add: walk_init_def)
next
  case (Suc k)
  let ?w = "body_prefix slots d k"
  let ?S = "\<lambda>k. {\<lparr>start = slot_time d a, end' = slot_time d b\<rparr> | a b.
        run_start slots d a b \<and> \<not> slot_off slots d b \<and> b < k}"
  show ?case
  proof (cases "slot_off slots d k")
    case True
    then have "?S (Suc k) = ?S k" by (auto simp: less_Suc_eq)
    then show ?thesis using True Suc by (simp add: walk_body_cases)
  next
    case off: False
    show ?thesis
    proof (cases "in_off ?w")
      case True
      with body_flag [of slots d k] obtain a where
        a: "off_start ?w = Some (slot_time d a)" "run_start slots d a k" by blast
      have "\<And>a'. run_start slots d a' k \<longleftrightarrow> a' = a"
        using a(2) run_start_unique by blast
      then have "?S (Suc k) = ?S k \<union> {\<lparr>start = slot_time d a, end' = slot_time d k\<rparr>}"
        using off by (auto simp: less_Suc_eq)
      then show ?thesis using off True a Suc by (simp add: walk_body_cases)
    next
      case False
      then have "\<And>a. \<not> run_start slots d a k"
        using body_flag [of slots d k] by (auto simp: run_start_def)
      then have "?S (Suc k) = ?S k" by (auto simp: less_Suc_eq)
      then show ?thesis using off False Suc by (simp add: walk_body_cases)
    qed
  qed
qed

lemma body_before_run:
  assumes "x \<in> set (intervals (body_prefix slots d k))" "run_start slots d a k"
  shows "end' x < slot_time d a"
proof -
  from assms(1) obtain a' b' where x: "x = \<lparr>start = slot_time d a', end' = slot_time d b'\<rparr>"
    and b': "\<not> slot_off slots d b'" "b' < k"
    unfolding body_intervals by blast
  have "b' < a" using assms(2) b' unfolding run_start_def by (meson not_le_imp_less)
  then show ?thesis using x by simp
qed

lemma body_separated: "separated (intervals (body_prefix slots d k))"
proof (induction k)
  case 0
  then show ?case by (simp add: walk_init_def separated_def)
next
  case (Suc k)
  let ?w = "body_prefix slots d k"
  show ?case
  proof (cases "\<not> slot_off slots d k \<and> in_off ?w")
    case True
    with body_flag [of slots d k] obtain a where
      a: "off_start ?w = Some (slot_time d a)" "run_start slots d a k" by blast
    have "\<forall>x\<in>set (intervals ?w). end' x < slot_time d a"
      using body_before_run [OF _ a(2)] by blast
    then show ?thesis using True a Suc
      by (simp add: walk_body_cases separated_def sorted_wrt_append)
  next
    case False
    then show ?thesis using Suc by (auto simp: walk_body_cases)
  qed
qed

lemma total_minutes_fold:
  "fold (\<lambda>it total. total + (end' it - start it) div us_per_minute) ivs acc =
   acc + (\<Sum>it\<leftarrow>ivs. (end' it - start it) div us_per_minute)"
  by (induction ivs arbitrary: acc) simp_all

lemma total_minutes_sum:
  "total_minutes ivs = (\<Sum>it\<leftarrow>ivs. (end' it - start it) div us_per_minute)"
  by (simp add: total_minutes_def total_minutes_fold)

lemma total_minutes_snoc:
  "total_minutes (ivs @ [x]) = total_minutes ivs + (end' x - start x) div us_per_minute"
  by (simp add: total_minutes_sum)

lemma slot_minutes: "a \<le> k \<Longrightarrow> (slot_time d k - slot_time d a) div us_per_minute = 30 * (int k - int a)"
  by (simp add: slot_time_def HALF_HOUR_def us_per_minute_def algebra_simps)

lemma body_minutes:
  "total_minutes (intervals (body_prefix slots d k)) +
     (if in_off (body_prefix slots d k)
      then (slot_time d k - the (off_start (body_prefix slots d k))) div us_per_minute else 0)
   = 30 * int (off_count slots d k)"
proof (induction k)
  case 0
  then show ?case by (simp add: walk_init_def total_minutes_def off_count_def)
next
  case (Suc k)
  let ?w = "body_prefix slots d k"
  show ?case
  proof (cases "in_off ?w")
    case True
    with body_flag [of slots d k] obtain a where
      a: "off_start ?w = Some (slot_time d a)" "run_start slots d a k" by blast
    then have "a \<le> k" by (simp add: run_start_def)
    then show ?thesis using True a Suc
      by (simp add: walk_body_cases total_minutes_snoc off_count_def slot_minutes)
  next
    case False
    then show ?thesis using Suc
      by (simp add: walk_body_cases total_minutes_snoc off_count_def slot_minutes)
  qed
qed

lemma days_in_month_pos: "0 \<le> days_in_month y m"
  by (simp add: days_in_month_def)

lemma days_before_month_nonneg: "0 \<le> days_before_month y m"
  unfolding days_before_month_def by (rule sum_list_nonneg) (auto simp: days_in_month_pos)

lemma days_before_year_nonneg: "1 \<le> y \<Longrightarrow> 0 \<le> days_before_year y"
proof -
  assume "1 \<le> y"
  then have a: "0 \<le> y - 1" by simp
  have "(y - 1) div 100 \<le> (y - 1) div 4" using a by (intro zdiv_mono2) simp_all
  moreover have "0 \<le> (y - 1) div 400" using a by simp
  moreover have "0 \<le> (y - 1) * 365" using a by simp
  ultimately show ?thesis unfolding days_before_year_def by linarith
qed

lemma strptime_ymd_bounds:
  assumes "strptime_ymd s = Inr (y, m, dd)"
  shows "1 \<le> y" "1 \<le> dd"
proof -
  from assms obtain ys ms ds where sp: "split_on CHR ''-'' s = [ys, ms, ds]"
    by (auto simp: strptime_ymd_def split: list.splits)
  from assms sp have ok: "day_field ds" and
    v: "y = digits_value ys" "dd = digits_value (if hd ds = CHR '' '' then tl ds else ds)"
       "\<not> y < 1"
    by (auto simp: strptime_ymd_def Let_def split: if_splits)
  show "1 \<le> y" using v by simp
  have nd: "\<not> is_digit CHR '' ''" by (simp add: is_digit_def)
  show "1 \<le> dd"
  proof (cases "hd ds = CHR '' ''")
    case True
    then have "\<not> list_all is_digit ds \<or> ds = []" using nd by (cases ds) auto
    then show ?thesis using ok True v by (auto simp: day_field_def)
  next
    case False
    then show ?thesis using ok v by (auto simp: day_field_def)
  qed
qed

lemma date_to_dt_midnight:
  assumes "date_to_dt date_str = Inr d"
  shows "0 \<le> d" "d mod us_per_day = 0"
proof -
  from assms obtain y m dd where p: "strptime_ymd date_str = Inr (y, m, dd)"
    and d: "d = (ymd2ord y m dd - 1) * us_per_day"
    by (auto simp: date_to_dt_def split: sum.splits)
  have "1 \<le> ymd2ord y m dd"
    using strptime_ymd_bounds [OF p] days_before_year_nonneg [of y] days_before_month_nonneg [of y m]
    by (simp add: ymd2ord_def)
  then show "0 \<le> d" using d by (simp add: us_per_day_def)
  show "d mod us_per_day = 0" using d by simp
qed

lemma off_walk_prefix:
  assumes "date_to_dt date_str = Inr d" "dt_add d one_day = Inr e"
  shows "off_walk date_str slots = Inr (walk_prefix slots d 48)"
proof -
  have "0 \<le> d" using assms(1) by (rule date_to_dt_midnight)
  from iter_half_hours_closed [OF this assms(2)] assms show ?thesis
    by (simp add: off_walk_def walk_all_prefix)
qed

lemma off_walk_InrD:
  assumes "off_walk date_str slots = Inr w"
  obtains d where "date_to_dt date_str = Inr d" "dt_add d one_day = Inr (slot_time d 48)"
    "w = walk_prefix slots d 48"
proof -
  from assms obtain d e where d: "date_to_dt date_str = Inr d" "dt_add d one_day = Inr e"
    by (auto simp: off_walk_def split: sum.splits)
  have "0 \<le> d" using d(1) by (rule date_to_dt_midnight)
  from iter_half_hours_closed(2) [OF this d(2)] have "e = slot_time d 48" .
  moreover have "w = walk_prefix slots d 48" using off_walk_prefix [OF d] assms by simp
  ultimately show ?thesis using that d by simp
qed

lemma final_in_off: "in_off (walk_prefix slots d 48) \<longleftrightarrow> slot_off slots d 47"
  using body_flag [of slots d 48] by (simp add: walk_prefix_48 walk_finish_def)

lemma final_intervals:
  "intervals (walk_prefix slots d 48) =
     intervals (body_prefix slots d 48) @
       (if slot_off slots d 47
        then [\<lparr>start = the (off_start (body_prefix slots d 48)), end' = slot_time d 48\<rparr>] else [])"
  using body_flag [of slots d 48] by (simp add: walk_prefix_48 walk_finish_def)

lemma final_set:
  "set (intervals (walk_prefix slots d 48)) =
     {\<lparr>start = slot_time d a, end' = slot_time d b\<rparr> | a b. off_run slots d a b}"
proof -
  let ?w = "body_prefix slots d 48"
  let ?B = "{\<lparr>start = slot_time d a, end' = slot_time d b\<rparr> | a b.
        run_start slots d a b \<and> \<not> slot_off slots d b \<and> b < 48}"
  let ?R = "{\<lparr>start = slot_time d a, end' = slot_time d b\<rparr> | a b. off_run slots d a b}"
  show ?thesis
  proof (cases "slot_off slots d 47")
    case True
    with body_flag [of slots d 48] obtain a where
      a: "off_start ?w = Some (slot_time d a)" "run_start slots d a 48" by auto
    have u: "\<And>a'. run_start slots d a' 48 \<longleftrightarrow> a' = a"
      using a(2) run_start_unique by blast
    have "?R = ?B \<union> {\<lparr>start = slot_time d a, end' = slot_time d 48\<rparr>}"
      unfolding off_run_def using u by (auto simp: le_less)
    then show ?thesis using True a by (simp add: final_intervals body_intervals)
  next
    case False
    then have "\<And>a. \<not> run_start slots d a 48" by (auto simp: run_start_def)
    then have "?R = ?B" unfolding off_run_def by (auto simp: le_less)
    then show ?thesis using False by (simp add: final_intervals body_intervals)
  qed
qed

lemma final_separated: "separated (intervals (walk_prefix slots d 48))"
proof (cases "slot_off slots d 47")
  case True
  let ?w = "body_prefix slots d 48"
  from True body_flag [of slots d 48] obtain a where
    a: "off_start ?w = Some (slot_time d a)" "run_start slots d a 48" by auto
  have "\<forall>x\<in>set (intervals ?w). end' x < slot_time d a"
    using body_before_run [OF _ a(2)] by blast
  then show ?thesis using True a body_separated [of slots d 48]
    by (simp add: final_intervals separated_def sorted_wrt_append)
next
  case False
  then show ?thesis using body_separated [of slots d 48] by (simp add: final_intervals)
qed

lemma final_minutes:
  "total_minutes (intervals (walk_prefix slots d 48)) = 30 * int (off_count slots d 48)"
proof (cases "slot_off slots d 47")
  case True
  then show ?thesis using body_minutes [of slots d 48] body_flag [of slots d 48]
    by (simp add: final_intervals total_minutes_snoc)
next
  case False
  then show ?thesis using body_minutes [of slots d 48] body_flag [of slots d 48]
    by (simp add: final_intervals)
qed

lemma slot_time_split:
  assumes "d mod us_per_day = 0"
  obtains q where "slot_time d k = (30 * int (k mod 2) + 60 * (24 * q + int (k div 2))) * us_per_minute"
proof -
  from assms obtain q where d: "d = q * us_per_day" by (metis mod_eq_0_iff_dvd dvd_def mult.commute)
  have k: "int k = 2 * int (k div 2) + int (k mod 2)"
    by (metis mult_div_mod_eq of_nat_add of_nat_mult of_nat_numeral)
  have "slot_time d k = q * 86400000000 + int k * 1800000000"
    by (simp add: slot_time_def d us_per_day_def HALF_HOUR_val)
  also have "\<dots> = q * 86400000000 + (2 * int (k div 2) + int (k mod 2)) * 1800000000"
    using k by simp
  also have "\<dots> = (30 * int (k mod 2) + 60 * (24 * q + int (k div 2))) * us_per_minute"
    by (simp add: us_per_minute_def algebra_simps)
  finally show ?thesis using that by blast
qed

lemma hour_minute_slot_time:
  assumes "d mod us_per_day = 0" "k < 48"
  shows "hour (slot_time d k) = int (k div 2)" "minute (slot_time d k) = 30 * int (k mod 2)"
proof -
  obtain q where e: "slot_time d k = (30 * int (k mod 2) + 60 * (24 * q + int (k div 2))) * us_per_minute"
    using slot_time_split [OF assms(1)] by blast
  have r: "int (k mod 2) = 0 \<or> int (k mod 2) = 1" by (simp add: mod_2_eq_odd)
  have h: "int (k div 2) < 24" using assms(2) by simp
  have m: "slot_time d k div us_per_minute = 30 * int (k mod 2) + 60 * (24 * q + int (k div 2))"
    unfolding e by (simp add: us_per_minute_def)
  have "(30 * int (k mod 2) + 60 * (24 * q + int (k div 2))) mod 60 = (30 * int (k mod 2)) mod 60"
    by (rule mod_mult_self2)
  also have "\<dots> = 30 * int (k mod 2)" using r by auto
  finally show "minute (slot_time d k) = 30 * int (k mod 2)"
    unfolding minute_def m .
  have "slot_time d k = 30 * int (k mod 2) * 60000000 + (24 * q + int (k div 2)) * us_per_hour"
    unfolding e by (simp add: us_per_minute_def us_per_hour_def algebra_simps)
  then have "slot_time d k div us_per_hour =
       (30 * int (k mod 2) * 60000000) div us_per_hour + (24 * q + int (k div 2))"
    by (simp add: us_per_hour_def)
  moreover have "(30 * int (k mod 2) * 60000000) div us_per_hour = 0"
    using r by (auto simp: us_per_hour_def)
  ultimately have "slot_time d k div us_per_hour = 24 * q + int (k div 2)" by simp
  then show "hour (slot_time d k) = int (k div 2)"
    unfolding hour_def using h by simp
qed

lemma time_str_slot_time:
  "d mod us_per_day = 0 \<Longrightarrow> k < 48 \<Longrightarrow> time_str_from_dt (slot_time d k) = slot_key k"
  by (simp add: time_str_from_dt_def slot_key_def hour_minute_slot_time)

lemma slot_keys:
  "map slot_key [0..<48] =
    [''00:00'', ''00:30'', ''01:00'', ''01:30'', ''02:00'', ''02:30'',
      ''03:00'', ''03:30'', ''04:00'', ''04:30'', ''05:00'', ''05:30'',
      ''06:00'', ''06:30'', ''07:00'', ''07:30'', ''08:00'', ''08:30'',
      ''09:00'', ''09:30'', ''10:00'', ''10:30'', ''11:00'', ''11:30'',
      ''12:00'', ''12:30'', ''13:00'', ''13:30'', ''14:00'', ''14:30'',
      ''15:00'', ''15:30'', ''16:00'', ''16:30'', ''17:00'', ''17:30'',
      ''18:00'', ''18:30'', ''19:00'', ''19:30'', ''20:00'', ''20:30'',
      ''21:00'', ''21:30'', ''22:00'', ''22:30'', ''23:00'', ''23:30'']"
  by code_simp

lemma slot_keys_distinct: "distinct (map slot_key [0..<48])"
  unfolding slot_keys by simp

lemma slot_key_inj: "k < 48 \<Longrightarrow> j < 48 \<Longrightarrow> slot_key k = slot_key j \<longleftrightarrow> k = j"
  using slot_keys_distinct by (auto simp: distinct_map inj_on_def)

lemma slot_key_nth: "k < 48 \<Longrightarrow> slot_key k = map slot_key [0..<48] ! k"
  by simp

lemma slot_off_key:
  "d mod us_per_day = 0 \<Longrightarrow> k < 48 \<Longrightarrow> slot_off slots d k \<longleftrightarrow> slot_status slots (slot_key k) = 2"
  by (simp add: slot_off_def time_str_slot_time)

lemma midnight_str: "d mod us_per_day = 0 \<Longrightarrow> time_str_from_dt d = ''00:00''"
proof -
  have "slot_key 0 = ''00:00''" by code_simp
  then show "d mod us_per_day = 0 \<Longrightarrow> time_str_from_dt d = ''00:00''"
    using time_str_slot_time [of d 0] by (simp add: slot_time_def)
qed

lemma final_member:
  assumes "x \<in> set (intervals (walk_prefix slots d 48))"
  obtains a b where "x = \<lparr>start = slot_time d a, end' = slot_time d b\<rparr>" "off_run slots d a b"
  using assms unfolding final_set by blast

lemma final_start_lt_end:
  "x \<in> set (intervals (walk_prefix slots d 48)) \<Longrightarrow> start x < end' x"
  by (erule final_member) (simp add: off_run_def run_start_def)

lemma final_last:
  assumes "slot_off slots d 47"
  shows "intervals (walk_prefix slots d 48) \<noteq> []"
    "end' (last (intervals (walk_prefix slots d 48))) = slot_time d 48"
  using assms by (simp_all add: final_intervals)

lemma separated_nth:
  "separated ivs \<Longrightarrow> i < j \<Longrightarrow> j < length ivs \<Longrightarrow> end' (ivs ! i) < start (ivs ! j)"
  unfolding separated_def by (simp add: sorted_wrt_iff_nth_less)

lemma separated_starts:
  assumes "separated ivs" "\<forall>x\<in>set ivs. start x < end' x"
  shows "sorted_wrt (\<lambda>a b. start a < start b) ivs"
  unfolding sorted_wrt_iff_nth_less
proof (intro allI impI)
  fix i j assume ij: "i < j" "j < length ivs"
  then have "start (ivs ! i) < end' (ivs ! i)" using assms(2) by simp
  also have "\<dots> < start (ivs ! j)" using separated_nth [OF assms(1) ij] .
  finally show "start (ivs ! i) < start (ivs ! j)" .
qed

lemma set_singleton_list:
  assumes "set xs = {x}" "distinct xs"
  shows "xs = [x]"
proof (cases xs)
  case Nil
  then show ?thesis using assms by simp
next
  case (Cons y ys)
  then have "y = x" "set ys \<subseteq> {x}" "x \<notin> set ys" using assms by auto
  then have "ys = []" by (cases ys) auto
  then show ?thesis using Cons \<open>y = x\<close> by simp
qed

lemma final_distinct: "distinct (intervals (walk_prefix slots d 48))"
proof -
  let ?ivs = "intervals (walk_prefix slots d 48)"
  have "sorted_wrt (\<lambda>a b. start a < start b) ?ivs"
    using final_separated final_start_lt_end by (intro separated_starts) auto
  then have "sorted_wrt (\<lambda>a b. a \<noteq> b) ?ivs"
    by (rule sorted_wrt_mono_rel [rotated]) auto
  then show ?thesis by (simp add: distinct_conv_nth sorted_wrt_iff_nth_less) (metis nat_neq_iff)
qed

lemma final_single:
  assumes "\<And>a b. off_run slots d a b \<longleftrightarrow> a = a0 \<and> b = b0"
  shows "intervals (walk_prefix slots d 48) = [\<lparr>start = slot_time d a0, end' = slot_time d b0\<rparr>]"
proof -
  have "set (intervals (walk_prefix slots d 48)) = {\<lparr>start = slot_time d a0, end' = slot_time d b0\<rparr>}"
    unfolding final_set using assms by auto
  then show ?thesis using final_distinct by (rule set_singleton_list)
qed

lemma off_run_single:
  assumes "\<And>k. k < 48 \<Longrightarrow> slot_off slots d k \<longleftrightarrow> a0 \<le> k \<and> k < b0" "a0 < b0" "b0 \<le> 48"
  shows "off_run slots d a b \<longleftrightarrow> a = a0 \<and> b = b0"
proof
  assume r: "off_run slots d a b"
  then have ab: "a < b" "b \<le> 48" and offs: "\<And>i. a \<le> i \<Longrightarrow> i < b \<Longrightarrow> slot_off slots d i"
    and l: "a = 0 \<or> \<not> slot_off slots d (a - 1)" and u: "b = 48 \<or> \<not> slot_off slots d b"
    by (auto simp: off_run_def run_start_def)
  have a1: "a0 \<le> a" "a < b0" using offs [of a] ab assms(1) [of a] by auto
  have b1: "a0 \<le> b - 1" "b - 1 < b0" using offs [of "b - 1"] ab assms(1) [of "b - 1"] by auto
  have "a = a0"
  proof (rule ccontr)
    assume "a \<noteq> a0"
    then have "a0 \<le> a - 1" "a - 1 < b0" "a \<noteq> 0" "a - 1 < 48" using a1 assms(3) by auto
    then show False using l assms(1) [of "a - 1"] by auto
  qed
  moreover have "b = b0"
  proof (rule ccontr)
    assume "b \<noteq> b0"
    then have "b < b0" using b1 by auto
    then have "b < 48" "a0 \<le> b" using assms(3) b1 by auto
    then show False using u assms(1) [of b] \<open>b < b0\<close> by auto
  qed
  ultimately show "a = a0 \<and> b = b0" by simp
next
  assume "a = a0 \<and> b = b0"
  then show "off_run slots d a b"
    using assms unfolding off_run_def run_start_def
    by (auto simp: less_le_trans)
qed

lemma date_2026_02_11: "date_to_dt ''2026-02-11'' = Inr 63906364800000000"
  by code_simp

lemma next_2026_02_11: "dt_add 63906364800000000 one_day = Inr 63906451200000000"
  by code_simp

lemma slot_key_47: "slot_key 47 = ''23:30''"
  by code_simp

lemma only_2330:
  assumes "d mod us_per_day = 0" "k < 48"
  shows "slot_off [''23:30'' \<mapsto> 2] d k \<longleftrightarrow> 47 \<le> k \<and> k < 48"
proof -
  have "slot_key k = ''23:30'' \<longleftrightarrow> k = 47"
    using slot_key_inj [of k 47] assms(2) by (simp add: slot_key_47)
  then show ?thesis using assms
    by (auto simp: slot_off_key slot_status_def)
qed

lemma intervals_2330:
  assumes "d mod us_per_day = 0"
  shows "intervals (walk_prefix [''23:30'' \<mapsto> 2] d 48) =
         [\<lparr>start = slot_time d 47, end' = slot_time d 48\<rparr>]"
  by (rule final_single, rule off_run_single) (simp_all add: only_2330 [OF assms])

lemma day_ok:
  assumes "date_to_dt date_str = Inr d" "dt_add d one_day = Inr e"
  shows "e = slot_time d 48" "e = d + one_day" "d mod us_per_day = 0" "e mod us_per_day = 0"
    "off_walk date_str slots = Inr (walk_prefix slots d 48)"
    "slots_to_off_intervals date_str slots = Inr (intervals (walk_prefix slots d 48))"
proof -
  have d: "0 \<le> d" "d mod us_per_day = 0" using date_to_dt_midnight [OF assms(1)] by auto
  show "d mod us_per_day = 0" by fact
  show e: "e = d + one_day" using assms(2) by (auto simp: dt_add_def split: if_splits)
  show "e = slot_time d 48" using e by (simp add: slot_time_def one_day_slots)
  show "e mod us_per_day = 0" using e d by (simp add: one_day_def)
  show w: "off_walk date_str slots = Inr (walk_prefix slots d 48)"
    using assms by (rule off_walk_prefix)
  show "slots_to_off_intervals date_str slots = Inr (intervals (walk_prefix slots d 48))"
    by (simp add: slots_to_off_intervals_def w)
qed

section \<open>Claims about the interval deriver\<close>

text \<open>
  Claim C1. Whenever the date parses and has a next day, \<^verbatim>\<open>_slots_to_off_intervals\<close>
  returns the intervals of the state its loop ends in, and if the loop ends with
  \<open>in_off\<close> still set, the last interval ends exactly at the start of the next calendar
  day (midnight, 24:00 of the given date). A slot map whose only entry is
  \<^verbatim>\<open>"23:30": 2\<close> gives exactly one interval, from 23:30 to 00:00 of the next day, and
  its total is 30 minutes.
\<close>

theorem last_interval_closes_at_next_midnight:
  assumes "date_to_dt date_str = Inr day_start" and "dt_add day_start one_day = Inr next_day"
  shows "(\<exists>w. off_walk date_str slots = Inr w \<and>
              slots_to_off_intervals date_str slots = Inr (intervals w) \<and>
              (in_off w \<longrightarrow> intervals w \<noteq> [] \<and> end' (last (intervals w)) = next_day)) \<and>
         next_day = day_start + one_day \<and> time_str_from_dt next_day = ''00:00'' \<and>
         slots_to_off_intervals date_str [''23:30'' \<mapsto> 2] =
           Inr [\<lparr>start = day_start + 47 * HALF_HOUR, end' = next_day\<rparr>] \<and>
         time_str_from_dt (day_start + 47 * HALF_HOUR) = ''23:30'' \<and>
         total_minutes [\<lparr>start = day_start + 47 * HALF_HOUR, end' = next_day\<rparr>] = 30"
proof -
  note ok = day_ok [OF assms]
  let ?w = "walk_prefix slots day_start 48"
  have "in_off ?w \<longrightarrow> intervals ?w \<noteq> [] \<and> end' (last (intervals ?w)) = next_day"
    using final_last [of slots day_start] by (simp add: final_in_off ok(1))
  then have g: "\<exists>w. off_walk date_str slots = Inr w \<and>
              slots_to_off_intervals date_str slots = Inr (intervals w) \<and>
              (in_off w \<longrightarrow> intervals w \<noteq> [] \<and> end' (last (intervals w)) = next_day)"
    using ok(5,6) by blast
  have t47: "slot_time day_start 47 = day_start + 47 * HALF_HOUR" by (simp add: slot_time_def)
  have p: "slots_to_off_intervals date_str [''23:30'' \<mapsto> 2] =
           Inr [\<lparr>start = day_start + 47 * HALF_HOUR, end' = next_day\<rparr>]"
    using ok(6) [of "[''23:30'' \<mapsto> 2]"] intervals_2330 [OF ok(3)] by (simp add: t47 ok(1))
  have k: "time_str_from_dt (day_start + 47 * HALF_HOUR) = ''23:30''"
    using time_str_slot_time [OF ok(3), of 47] by (simp add: t47 slot_key_47)
  have m: "total_minutes [\<lparr>start = day_start + 47 * HALF_HOUR, end' = next_day\<rparr>] = 30"
    by (simp add: total_minutes_sum ok(2) one_day_def HALF_HOUR_def us_per_day_def us_per_minute_def)
  show ?thesis using g p k m ok(2) midnight_str [OF ok(4)] by simp
qed

theorem last_interval_closes_at_next_midnight_witness:
  "slots_to_off_intervals ''2026-02-11'' [''23:30'' \<mapsto> 2] =
     Inr [\<lparr>start = 63906449400000000, end' = 63906451200000000\<rparr>] \<and>
   (\<exists>w. off_walk ''2026-02-11'' [''23:30'' \<mapsto> 2] = Inr w \<and> in_off w \<and>
        end' (last (intervals w)) = 63906451200000000)"
proof -
  note t = last_interval_closes_at_next_midnight [OF date_2026_02_11 next_2026_02_11]
  have i: "slots_to_off_intervals ''2026-02-11'' [''23:30'' \<mapsto> 2] =
     Inr [\<lparr>start = 63906449400000000, end' = 63906451200000000\<rparr>]"
    using t [of Map.empty] by (simp add: HALF_HOUR_val)
  from t [of "[''23:30'' \<mapsto> 2]"] obtain w where
    w: "off_walk ''2026-02-11'' [''23:30'' \<mapsto> 2] = Inr w"
       "in_off w \<longrightarrow> intervals w \<noteq> [] \<and> end' (last (intervals w)) = 63906451200000000"
    by blast
  have "w = walk_prefix [''23:30'' \<mapsto> 2] 63906364800000000 48"
    using w(1) off_walk_prefix [OF date_2026_02_11 next_2026_02_11, of "[''23:30'' \<mapsto> 2]"] by simp
  moreover have "slot_off [''23:30'' \<mapsto> 2] 63906364800000000 47"
    by (subst only_2330) (simp_all add: us_per_day_def)
  ultimately have "in_off w" by (simp add: final_in_off)
  then show ?thesis using i w by blast
qed

lemma iter_ok:
  assumes "date_to_dt date_str = Inr d" "iter_half_hours d = Inr ts"
  obtains e where "dt_add d one_day = Inr e" "ts = map (slot_time d) [0..<48]"
proof -
  from assms(2) obtain e where e: "dt_add d one_day = Inr e"
    by (auto simp: iter_half_hours_def split: sum.splits)
  have "0 \<le> d" using assms(1) by (rule date_to_dt_midnight)
  from iter_half_hours_closed(1) [OF this e] assms(2) have "ts = map (slot_time d) [0..<48]" by simp
  then show ?thesis using that e by blast
qed

lemma off_count_filter:
  "int (off_count slots d 48) =
   int (length (filter (\<lambda>t. slot_status slots (time_str_from_dt t) = 2) (map (slot_time d) [0..<48])))"
  by (simp add: off_count_def filter_map o_def slot_off_def [abs_def])

lemma count_2330:
  assumes "d mod us_per_day = 0"
  shows "off_count [''23:30'' \<mapsto> 2] d 48 = 1"
proof -
  have "filter (slot_off [''23:30'' \<mapsto> 2] d) [0..<48] = filter (\<lambda>k. k = 47) [0..<48]"
    by (rule filter_cong) (auto simp: only_2330 [OF assms])
  also have "\<dots> = [47]" by code_simp
  finally show ?thesis by (simp add: off_count_def)
qed

text \<open>
  Claim C2, as amended. For every date that parses and has a next day and for every slot
  map, the total of the minutes over the derived intervals is 30 times the number of
  half-hour keys of the day whose status is 2; it is therefore not negative and a
  multiple of 30. (The claim's factor 1800 is the length of a slot in seconds.)
\<close>

theorem total_minutes_is_30_per_off_slot:
  assumes "date_to_dt date_str = Inr day_start" and "iter_half_hours day_start = Inr times'"
  shows "\<exists>ivs. slots_to_off_intervals date_str slots = Inr ivs \<and>
           total_minutes ivs =
             30 * int (length (filter (\<lambda>t. slot_status slots (time_str_from_dt t) = 2) times')) \<and>
           0 \<le> total_minutes ivs \<and> total_minutes ivs mod 30 = 0 \<and> length times' = 48"
proof -
  from assms obtain e where e: "dt_add day_start one_day = Inr e"
    and ts: "times' = map (slot_time day_start) [0..<48]" by (rule iter_ok)
  let ?ivs = "intervals (walk_prefix slots day_start 48)"
  have "slots_to_off_intervals date_str slots = Inr ?ivs" using day_ok(6) [OF assms(1) e] .
  moreover have "total_minutes ?ivs =
      30 * int (length (filter (\<lambda>t. slot_status slots (time_str_from_dt t) = 2) times'))"
    unfolding ts final_minutes off_count_filter ..
  ultimately show ?thesis using ts by auto
qed

theorem total_minutes_is_30_per_off_slot_witness:
  "slots_to_off_intervals ''2026-02-11'' [''23:30'' \<mapsto> 2] =
     Inr [\<lparr>start = 63906449400000000, end' = 63906451200000000\<rparr>] \<and>
   total_minutes [\<lparr>start = 63906449400000000, end' = 63906451200000000\<rparr>] = 30 * 1"
proof -
  have d: "(63906364800000000::int) mod us_per_day = 0" by (simp add: us_per_day_def)
  have it: "iter_half_hours 63906364800000000 = Inr (map (slot_time 63906364800000000) [0..<48])"
    by (rule iter_half_hours_closed(1) [OF _ next_2026_02_11]) simp
  have iv: "slots_to_off_intervals ''2026-02-11'' [''23:30'' \<mapsto> 2] =
     Inr [\<lparr>start = 63906449400000000, end' = 63906451200000000\<rparr>]"
    using day_ok(6) [OF date_2026_02_11 next_2026_02_11, of "[''23:30'' \<mapsto> 2]"] intervals_2330 [OF d]
    by (simp add: slot_time_def HALF_HOUR_val)
  have c: "int (length (filter (\<lambda>t. slot_status [''23:30'' \<mapsto> 2] (time_str_from_dt t) = 2)
             (map (slot_time 63906364800000000) [0..<48]))) = 1"
    using count_2330 [OF d] off_count_filter [of "[''23:30'' \<mapsto> 2]" 63906364800000000] by simp
  from total_minutes_is_30_per_off_slot [OF date_2026_02_11 it, of "[''23:30'' \<mapsto> 2]"]
  show ?thesis unfolding iv c by simp
qed

theorem total_minutes_1800_counterexample:
  "\<not> (\<forall>date_str slots day_start times' ivs.
        date_to_dt date_str = Inr day_start \<and> iter_half_hours day_start = Inr times' \<and>
        slots_to_off_intervals date_str slots = Inr ivs \<longrightarrow>
        total_minutes ivs =
          1800 * int (length (filter (\<lambda>t. slot_status slots (time_str_from_dt t) = 2) times')))"
proof
  assume a: "\<forall>date_str slots day_start times' ivs.
        date_to_dt date_str = Inr day_start \<and> iter_half_hours day_start = Inr times' \<and>
        slots_to_off_intervals date_str slots = Inr ivs \<longrightarrow>
        total_minutes ivs =
          1800 * int (length (filter (\<lambda>t. slot_status slots (time_str_from_dt t) = 2) times'))"
  have d: "(63906364800000000::int) mod us_per_day = 0" by (simp add: us_per_day_def)
  have it: "iter_half_hours 63906364800000000 = Inr (map (slot_time 63906364800000000) [0..<48])"
    by (rule iter_half_hours_closed(1) [OF _ next_2026_02_11]) simp
  have iv: "slots_to_off_intervals ''2026-02-11'' [''23:30'' \<mapsto> 2] =
     Inr (intervals (walk_prefix [''23:30'' \<mapsto> 2] 63906364800000000 48))"
    by (rule day_ok(6) [OF date_2026_02_11 next_2026_02_11])
  have c: "int (length (filter (\<lambda>t. slot_status [''23:30'' \<mapsto> 2] (time_str_from_dt t) = 2)
             (map (slot_time 63906364800000000) [0..<48]))) = 1"
    using count_2330 [OF d] off_count_filter [of "[''23:30'' \<mapsto> 2]" 63906364800000000] by simp
  have m: "total_minutes (intervals (walk_prefix [''23:30'' \<mapsto> 2] 63906364800000000 48)) = 30"
    using final_minutes [of "[''23:30'' \<mapsto> 2]" 63906364800000000] count_2330 [OF d] by simp
  from a date_2026_02_11 it iv
  have "total_minutes (intervals (walk_prefix [''23:30'' \<mapsto> 2] 63906364800000000 48)) =
        1800 * int (length (filter (\<lambda>t. slot_status [''23:30'' \<mapsto> 2] (time_str_from_dt t) = 2)
             (map (slot_time 63906364800000000) [0..<48])))"
    by blast
  then show False unfolding c m by simp
qed

lemma slot_key_19_22:
  "slot_key 19 = ''09:30''" "slot_key 20 = ''10:00''" "slot_key 21 = ''10:30''" "slot_key 22 = ''11:00''"
  by code_simp+

lemma run_10_to_11:
  assumes "d mod us_per_day = 0"
    "slot_status slots ''10:00'' = 2" "slot_status slots ''10:30'' = 2"
    "slot_status slots ''09:30'' \<noteq> 2" "slot_status slots ''11:00'' \<noteq> 2"
  shows "off_run slots d 20 22"
proof -
  have o: "\<not> slot_off slots d 19" "slot_off slots d 20" "slot_off slots d 21" "\<not> slot_off slots d 22"
    using assms by (simp_all add: slot_off_key slot_key_19_22)
  have "\<And>i. 20 \<le> i \<and> i < 22 \<Longrightarrow> i = 20 \<or> i = (21::nat)" by arith
  then have "\<forall>i. 20 \<le> i \<and> i < 22 \<longrightarrow> slot_off slots d i" using o by blast
  then show ?thesis using o unfolding off_run_def run_start_def by simp
qed

lemma final_member_props:
  assumes "x \<in> set (intervals (walk_prefix slots d 48))"
  shows "start x \<in> set (map (slot_time d) [0..<48])"
    and "\<forall>t\<in>set (map (slot_time d) [0..<48]).
           (start x \<le> t \<and> t < end' x \<longrightarrow> slot_status slots (time_str_from_dt t) = 2) \<and>
           (t + HALF_HOUR = start x \<longrightarrow> slot_status slots (time_str_from_dt t) \<noteq> 2) \<and>
           (t = end' x \<longrightarrow> slot_status slots (time_str_from_dt t) \<noteq> 2)"
proof -
  from assms obtain a b where x: "x = \<lparr>start = slot_time d a, end' = slot_time d b\<rparr>"
    and r: "off_run slots d a b" by (rule final_member)
  from r have ab: "a < b" "b \<le> 48"
    and offs: "\<And>i. a \<le> i \<Longrightarrow> i < b \<Longrightarrow> slot_off slots d i"
    and l: "a = 0 \<or> \<not> slot_off slots d (a - 1)" and u: "b = 48 \<or> \<not> slot_off slots d b"
    by (auto simp: off_run_def run_start_def)
  show "start x \<in> set (map (slot_time d) [0..<48])" using x ab by simp
  show "\<forall>t\<in>set (map (slot_time d) [0..<48]).
           (start x \<le> t \<and> t < end' x \<longrightarrow> slot_status slots (time_str_from_dt t) = 2) \<and>
           (t + HALF_HOUR = start x \<longrightarrow> slot_status slots (time_str_from_dt t) \<noteq> 2) \<and>
           (t = end' x \<longrightarrow> slot_status slots (time_str_from_dt t) \<noteq> 2)"
  proof
    fix t assume "t \<in> set (map (slot_time d) [0..<48])"
    then obtain i where i: "i < 48" "t = slot_time d i" by auto
    have s: "slot_time d i + HALF_HOUR = slot_time d (Suc i)" by (simp add: slot_time_def algebra_simps)
    have 1: "start x \<le> t \<and> t < end' x \<longrightarrow> slot_status slots (time_str_from_dt t) = 2"
      using offs [of i] by (simp add: x i slot_off_def)
    have 2: "t + HALF_HOUR = start x \<longrightarrow> slot_status slots (time_str_from_dt t) \<noteq> 2"
    proof
      assume "t + HALF_HOUR = start x"
      then have "Suc i = a" using x i s by simp
      then show "slot_status slots (time_str_from_dt t) \<noteq> 2" using l i by (auto simp: slot_off_def)
    qed
    have 3: "t = end' x \<longrightarrow> slot_status slots (time_str_from_dt t) \<noteq> 2"
    proof
      assume "t = end' x"
      then have "i = b" using x i by simp
      then show "slot_status slots (time_str_from_dt t) \<noteq> 2" using u i by (auto simp: slot_off_def)
    qed
    show "(start x \<le> t \<and> t < end' x \<longrightarrow> slot_status slots (time_str_from_dt t) = 2) \<and>
           (t + HALF_HOUR = start x \<longrightarrow> slot_status slots (time_str_from_dt t) \<noteq> 2) \<and>
           (t = end' x \<longrightarrow> slot_status slots (time_str_from_dt t) \<noteq> 2)"
      using 1 2 3 by blast
  qed
qed

text \<open>
  Claim C9. For every date and slot map for which \<^verbatim>\<open>_slots_to_off_intervals\<close> returns,
  every interval of the result has \<open>start < end\<close>; the intervals are in ascending order
  of start; an earlier interval ends before a later one starts, so no two overlap and no
  two share a boundary; and every interval is a maximal run of off slots: each half-hour
  boundary it covers is off, the slot just before its start and the slot at its end are
  not. In particular, off slots at 10:00 and 10:30 between slots at 09:30 and 11:00 that
  are not off give the one interval from 10:00 to 11:00.
\<close>

theorem derived_intervals_are_separate_maximal_runs:
  assumes "date_to_dt date_str = Inr day_start" and "iter_half_hours day_start = Inr times'"
    and "slots_to_off_intervals date_str slots = Inr ivs"
  shows "(\<forall>iv\<in>set ivs. start iv < end' iv) \<and>
         sorted_wrt (\<lambda>a b. start a < start b) ivs \<and>
         (\<forall>i j. i < j \<and> j < length ivs \<longrightarrow> end' (ivs ! i) \<le> start (ivs ! j)) \<and>
         (\<forall>i j. i < j \<and> j < length ivs \<longrightarrow> end' (ivs ! i) \<noteq> start (ivs ! j)) \<and>
         (\<forall>iv\<in>set ivs. start iv \<in> set times' \<and>
            (\<forall>t\<in>set times'.
               (start iv \<le> t \<and> t < end' iv \<longrightarrow> slot_status slots (time_str_from_dt t) = 2) \<and>
               (t + HALF_HOUR = start iv \<longrightarrow> slot_status slots (time_str_from_dt t) \<noteq> 2) \<and>
               (t = end' iv \<longrightarrow> slot_status slots (time_str_from_dt t) \<noteq> 2))) \<and>
         (slot_status slots ''10:00'' = 2 \<and> slot_status slots ''10:30'' = 2 \<and>
          slot_status slots ''09:30'' \<noteq> 2 \<and> slot_status slots ''11:00'' \<noteq> 2 \<longrightarrow>
            \<lparr>start = day_start + 20 * HALF_HOUR, end' = day_start + 22 * HALF_HOUR\<rparr> \<in> set ivs \<and>
            time_str_from_dt (day_start + 20 * HALF_HOUR) = ''10:00'' \<and>
            time_str_from_dt (day_start + 22 * HALF_HOUR) = ''11:00'')"
proof -
  from assms(1,2) obtain e where e: "dt_add day_start one_day = Inr e"
    and ts: "times' = map (slot_time day_start) [0..<48]" by (rule iter_ok)
  note ok = day_ok [OF assms(1) e]
  have ivs: "ivs = intervals (walk_prefix slots day_start 48)"
    using ok(6) [of slots] assms(3) by simp
  have sep: "separated ivs" unfolding ivs by (rule final_separated)
  have 1: "\<forall>iv\<in>set ivs. start iv < end' iv" unfolding ivs using final_start_lt_end by blast
  have 2: "sorted_wrt (\<lambda>a b. start a < start b) ivs" using sep 1 by (rule separated_starts)
  have 3: "\<forall>i j. i < j \<and> j < length ivs \<longrightarrow> end' (ivs ! i) \<le> start (ivs ! j)"
    using separated_nth [OF sep] by (simp add: less_imp_le)
  have 4: "\<forall>i j. i < j \<and> j < length ivs \<longrightarrow> end' (ivs ! i) \<noteq> start (ivs ! j)"
    using separated_nth [OF sep] by fastforce
  have 5: "\<forall>iv\<in>set ivs. start iv \<in> set times' \<and>
            (\<forall>t\<in>set times'.
               (start iv \<le> t \<and> t < end' iv \<longrightarrow> slot_status slots (time_str_from_dt t) = 2) \<and>
               (t + HALF_HOUR = start iv \<longrightarrow> slot_status slots (time_str_from_dt t) \<noteq> 2) \<and>
               (t = end' iv \<longrightarrow> slot_status slots (time_str_from_dt t) \<noteq> 2))"
    unfolding ivs ts using final_member_props by blast
  have 6: "slot_status slots ''10:00'' = 2 \<and> slot_status slots ''10:30'' = 2 \<and>
          slot_status slots ''09:30'' \<noteq> 2 \<and> slot_status slots ''11:00'' \<noteq> 2 \<longrightarrow>
            \<lparr>start = day_start + 20 * HALF_HOUR, end' = day_start + 22 * HALF_HOUR\<rparr> \<in> set ivs \<and>
            time_str_from_dt (day_start + 20 * HALF_HOUR) = ''10:00'' \<and>
            time_str_from_dt (day_start + 22 * HALF_HOUR) = ''11:00''"
  proof
    assume a: "slot_status slots ''10:00'' = 2 \<and> slot_status slots ''10:30'' = 2 \<and>
          slot_status slots ''09:30'' \<noteq> 2 \<and> slot_status slots ''11:00'' \<noteq> 2"
    then have "off_run slots day_start 20 22" using run_10_to_11 [OF ok(3)] by blast
    then have "\<lparr>start = slot_time day_start 20, end' = slot_time day_start 22\<rparr> \<in> set ivs"
      unfolding ivs final_set by blast
    moreover have "time_str_from_dt (slot_time day_start 20) = ''10:00''"
      "time_str_from_dt (slot_time day_start 22) = ''11:00''"
      using time_str_slot_time [OF ok(3)] by (simp_all add: slot_key_19_22)
    ultimately show "\<lparr>start = day_start + 20 * HALF_HOUR, end' = day_start + 22 * HALF_HOUR\<rparr> \<in> set ivs \<and>
            time_str_from_dt (day_start + 20 * HALF_HOUR) = ''10:00'' \<and>
            time_str_from_dt (day_start + 22 * HALF_HOUR) = ''11:00''"
      by (simp add: slot_time_def)
  qed
  show ?thesis using 1 2 3 4 5 6 by blast
qed

lemma iter_2026_02_11:
  "iter_half_hours 63906364800000000 = Inr (map (slot_time 63906364800000000) [0..<48])"
  by (rule iter_half_hours_closed(1) [OF _ next_2026_02_11]) simp

lemma mod_2026_02_11: "(63906364800000000::int) mod us_per_day = 0"
  by (simp add: us_per_day_def)

lemma only_10_to_11:
  assumes "d mod us_per_day = 0" "k < 48"
  shows "slot_off [''09:30'' \<mapsto> 1, ''10:00'' \<mapsto> 2, ''10:30'' \<mapsto> 2, ''11:00'' \<mapsto> 1] d k
         \<longleftrightarrow> 20 \<le> k \<and> k < 22"
proof -
  have "slot_key k = ''09:30'' \<longleftrightarrow> k = 19" "slot_key k = ''10:00'' \<longleftrightarrow> k = 20"
    "slot_key k = ''10:30'' \<longleftrightarrow> k = 21" "slot_key k = ''11:00'' \<longleftrightarrow> k = 22"
    using slot_key_inj [of k 19] slot_key_inj [of k 20] slot_key_inj [of k 21]
      slot_key_inj [of k 22] assms(2) by (simp_all add: slot_key_19_22)
  then show ?thesis using assms
    by (auto simp: slot_off_key slot_status_def)
qed

theorem derived_intervals_are_separate_maximal_runs_witness:
  "slots_to_off_intervals ''2026-02-11''
     [''09:30'' \<mapsto> 1, ''10:00'' \<mapsto> 2, ''10:30'' \<mapsto> 2, ''11:00'' \<mapsto> 1] =
     Inr [\<lparr>start = 63906400800000000, end' = 63906404400000000\<rparr>] \<and>
   time_str_from_dt 63906400800000000 = ''10:00'' \<and>
   time_str_from_dt 63906404400000000 = ''11:00''"
proof -
  let ?m = "[''09:30'' \<mapsto> 1, ''10:00'' \<mapsto> 2, ''10:30'' \<mapsto> 2, ''11:00'' \<mapsto> (1::int)]"
  have "intervals (walk_prefix ?m 63906364800000000 48) =
        [\<lparr>start = slot_time 63906364800000000 20, end' = slot_time 63906364800000000 22\<rparr>]"
    by (rule final_single, rule off_run_single)
       (simp_all add: only_10_to_11 [OF mod_2026_02_11])
  then have iv: "slots_to_off_intervals ''2026-02-11'' ?m =
     Inr [\<lparr>start = 63906400800000000, end' = 63906404400000000\<rparr>]"
    using day_ok(6) [OF date_2026_02_11 next_2026_02_11, of ?m]
    by (simp add: slot_time_def HALF_HOUR_val)
  have st: "slot_status ?m ''10:00'' = 2 \<and> slot_status ?m ''10:30'' = 2 \<and>
          slot_status ?m ''09:30'' \<noteq> 2 \<and> slot_status ?m ''11:00'' \<noteq> 2"
    by (simp add: slot_status_def)
  from derived_intervals_are_separate_maximal_runs [OF date_2026_02_11 iter_2026_02_11 iv] st
  have "time_str_from_dt (63906364800000000 + 20 * HALF_HOUR) = ''10:00'' \<and>
        time_str_from_dt (63906364800000000 + 22 * HALF_HOUR) = ''11:00''"
    by blast
  then show ?thesis using iv by (simp add: HALF_HOUR_val)
qed

lemma first_start_after_filter:
  "first_start_after now xs =
     (case filter (\<lambda>it. now < start it) xs of [] \<Rightarrow> None | it # _ \<Rightarrow> Some (start it))"
  by (induction xs) simp_all

lemma first_start_after_None:
  "first_start_after now xs = None \<longleftrightarrow> (\<forall>it\<in>set xs. start it \<le> now)"
  by (induction xs) auto

lemma first_start_after_Some:
  assumes "sorted (map start xs)"
  shows "first_start_after now xs = Some s \<longleftrightarrow>
           (\<exists>it\<in>set xs. start it = s) \<and> now < s \<and> (\<forall>it\<in>set xs. now < start it \<longrightarrow> s \<le> start it)"
  using assms
proof (induction xs)
  case Nil
  then show ?case by simp
next
  case (Cons x xs)
  show ?case
  proof (cases "now < start x")
    case True
    then show ?thesis using Cons.prems by (auto simp: order.antisym)
  next
    case False
    then show ?thesis using Cons by auto
  qed
qed

lemma find_next_outage_Some:
  "find_next_outage now today_off tomorrow_off = Some s \<longleftrightarrow>
     (\<exists>it\<in>set (today_off @ tomorrow_off). start it = s) \<and> now < s \<and>
     (\<forall>it\<in>set (today_off @ tomorrow_off). now < start it \<longrightarrow> s \<le> start it)"
  unfolding find_next_outage_def Let_def
  by (subst first_start_after_Some) (simp_all del: set_append)

lemma find_next_outage_None:
  "find_next_outage now today_off tomorrow_off = None \<longleftrightarrow>
     (\<forall>it\<in>set (today_off @ tomorrow_off). start it \<le> now)"
  unfolding find_next_outage_def Let_def
  by (simp add: first_start_after_None del: set_append)

section \<open>Claims about the schedule evaluator\<close>

text \<open>
  Claim C3. For every instant \<open>now\<close> and every two interval lists,
  \<^verbatim>\<open>_find_next_outage\<close> returns the start of the first interval, in the list of both
  days sorted by ascending start, whose start is strictly greater than \<open>now\<close>: that is
  the least start after \<open>now\<close>. The start of an interval that contains \<open>now\<close> is never
  returned, and when no interval starts after \<open>now\<close> the result is \<^verbatim>\<open>None\<close>, a value
  and not an error.
\<close>

theorem next_outage_is_first_start_after_now:
  "find_next_outage now today_off tomorrow_off =
     (case filter (\<lambda>it. now < start it) (sort_key start (today_off @ tomorrow_off)) of
        [] \<Rightarrow> None
      | it # _ \<Rightarrow> Some (start it)) \<and>
   (\<forall>s. find_next_outage now today_off tomorrow_off = Some s \<longleftrightarrow>
      (\<exists>it\<in>set (today_off @ tomorrow_off). start it = s) \<and> now < s \<and>
      (\<forall>it\<in>set (today_off @ tomorrow_off). now < start it \<longrightarrow> s \<le> start it)) \<and>
   (\<forall>it\<in>set (today_off @ tomorrow_off).
      start it \<le> now \<and> now < end' it \<longrightarrow>
      find_next_outage now today_off tomorrow_off \<noteq> Some (start it)) \<and>
   (find_next_outage now today_off tomorrow_off = None \<longleftrightarrow>
      (\<forall>it\<in>set (today_off @ tomorrow_off). start it \<le> now))"
proof -
  have 1: "find_next_outage now today_off tomorrow_off =
     (case filter (\<lambda>it. now < start it) (sort_key start (today_off @ tomorrow_off)) of
        [] \<Rightarrow> None
      | it # _ \<Rightarrow> Some (start it))"
    by (simp add: find_next_outage_def first_start_after_filter)
  have 3: "\<forall>it\<in>set (today_off @ tomorrow_off).
      start it \<le> now \<and> now < end' it \<longrightarrow>
      find_next_outage now today_off tomorrow_off \<noteq> Some (start it)"
    using find_next_outage_Some [of now today_off tomorrow_off] by auto
  show ?thesis using 1 3 find_next_outage_Some find_next_outage_None by blast
qed

theorem next_outage_is_first_start_after_now_witness:
  "find_next_outage 9
     [\<lparr>start = 14, end' = 16\<rparr>, \<lparr>start = 8, end' = 10\<rparr>] [\<lparr>start = 25, end' = 26\<rparr>] = Some 14 \<and>
   find_next_outage 9
     [\<lparr>start = 14, end' = 16\<rparr>, \<lparr>start = 8, end' = 10\<rparr>] [\<lparr>start = 25, end' = 26\<rparr>] \<noteq> Some 8 \<and>
   find_next_outage 30
     [\<lparr>start = 14, end' = 16\<rparr>, \<lparr>start = 8, end' = 10\<rparr>] [\<lparr>start = 25, end' = 26\<rparr>] = None"
  using next_outage_is_first_start_after_now
    [of 9 "[\<lparr>start = 14, end' = 16\<rparr>, \<lparr>start = 8, end' = 10\<rparr>]" "[\<lparr>start = 25, end' = 26\<rparr>]"]
    next_outage_is_first_start_after_now
    [of 30 "[\<lparr>start = 14, end' = 16\<rparr>, \<lparr>start = 8, end' = 10\<rparr>]" "[\<lparr>start = 25, end' = 26\<rparr>]"]
  by simp

lemma round_down_eq: "round_down_to_half_hour dt = dt - dt mod HALF_HOUR"
proof -
  define r where "r = dt mod us_per_hour"
  define s where "s = dt mod us_per_minute"
  have r: "r = us_per_minute * minute dt + s"
    unfolding r_def s_def minute_def
    using zmod_zmult2_eq [of 60 dt us_per_minute] by (simp add: us_per_hour_def us_per_minute_def)
  have s: "0 \<le> s" "s < 60000000" unfolding s_def by (simp_all add: us_per_minute_def)
  have m: "0 \<le> minute dt" "minute dt < 60" unfolding minute_def by simp_all
  have h: "dt mod HALF_HOUR = r mod HALF_HOUR"
    unfolding r_def HALF_HOUR_val us_per_hour_def by (simp add: mod_mod_cancel)
  show ?thesis
  proof (cases "minute dt < 30")
    case True
    then have "0 \<le> r" "r < HALF_HOUR" using r s m by (simp_all add: HALF_HOUR_val us_per_minute_def)
    then have "r mod HALF_HOUR = r" by simp
    then show ?thesis using True h
      by (simp add: round_down_to_half_hour_def replace_minute_def r_def)
  next
    case False
    then have "0 \<le> r - HALF_HOUR" "r - HALF_HOUR < HALF_HOUR"
      using r s m by (simp_all add: HALF_HOUR_val us_per_minute_def)
    then have "(r - HALF_HOUR) mod HALF_HOUR = r - HALF_HOUR" by (rule mod_pos_pos_trivial)
    moreover have "(r - HALF_HOUR) mod HALF_HOUR = r mod HALF_HOUR" by simp
    ultimately have "r mod HALF_HOUR = r - HALF_HOUR" by simp
    then show ?thesis using False h
      by (simp add: round_down_to_half_hour_def replace_minute_def r_def [symmetric] HALF_HOUR_val us_per_minute_def)
  qed
qed

lemma round_down_bounds:
  "round_down_to_half_hour dt \<le> dt" "dt < round_down_to_half_hour dt + HALF_HOUR"
  unfolding round_down_eq by (simp_all add: HALF_HOUR_val)

lemma round_down_div: "round_down_to_half_hour dt = (dt div HALF_HOUR) * HALF_HOUR"
  unfolding round_down_eq by (simp add: minus_mod_eq_div_mult)

lemma round_down_ge:
  assumes "b mod HALF_HOUR = 0"
  shows "b \<le> round_down_to_half_hour dt \<longleftrightarrow> b \<le> dt"
proof
  assume "b \<le> round_down_to_half_hour dt"
  then show "b \<le> dt" using round_down_bounds(1) [of dt] by simp
next
  assume "b \<le> dt"
  then have "b div HALF_HOUR \<le> dt div HALF_HOUR" by (intro zdiv_mono1) (simp_all add: HALF_HOUR_val)
  then have "(b div HALF_HOUR) * HALF_HOUR \<le> (dt div HALF_HOUR) * HALF_HOUR"
    by (intro mult_right_mono) (simp_all add: HALF_HOUR_val)
  moreover have "(b div HALF_HOUR) * HALF_HOUR = b" using assms by (simp add: mod_eq_0_iff_dvd)
  ultimately show "b \<le> round_down_to_half_hour dt" by (simp add: round_down_div)
qed

lemma round_down_lt:
  assumes "b mod HALF_HOUR = 0"
  shows "round_down_to_half_hour dt < b \<longleftrightarrow> dt < b"
  using round_down_ge [OF assms, of dt] by linarith

lemma day_aligned: "d mod us_per_day = 0 \<Longrightarrow> d mod HALF_HOUR = 0"
proof -
  assume "d mod us_per_day = 0"
  then have "us_per_day dvd d" by (simp add: mod_eq_0_iff_dvd)
  moreover have "HALF_HOUR dvd us_per_day" by (simp add: HALF_HOUR_val us_per_day_def)
  ultimately have "HALF_HOUR dvd d" by (rule dvd_trans [rotated])
  then show ?thesis by (simp add: mod_eq_0_iff_dvd)
qed

text \<open>
  Claim C4. For every instant \<open>now\<close>, every date that parses and every slot map,
  \<^verbatim>\<open>_is_now_has_power\<close> rounds \<open>now\<close> down to the half-hour boundary that encloses it.
  If that boundary lies in the day span of the date (which is the case exactly when
  \<open>now\<close> does), the result is whether the status at the boundary's key is 1, a missing
  key counting as 1; if it lies outside, the result is power on. With \<open>now\<close> at 10:15
  and status 2 at \<^verbatim>\<open>"10:00"\<close> the result is \<^verbatim>\<open>False\<close>.
\<close>

theorem now_has_power_reads_enclosing_half_hour:
  assumes "date_to_dt date_today = Inr today_start"
    and "dt_add today_start one_day = Inr day_end"
    and "b = round_down_to_half_hour now"
  shows "b = now - now mod HALF_HOUR \<and> b \<le> now \<and> now < b + HALF_HOUR \<and>
         ((today_start \<le> b \<and> b < day_end) \<longleftrightarrow> (today_start \<le> now \<and> now < day_end)) \<and>
         (today_start \<le> b \<and> b < day_end \<longrightarrow>
            is_now_has_power now date_today slots_today =
              Inr (slot_status slots_today (time_str_from_dt b) = 1) \<and>
            (slots_today (time_str_from_dt b) = None \<longrightarrow>
               is_now_has_power now date_today slots_today = Inr True)) \<and>
         (\<not> (today_start \<le> b \<and> b < day_end) \<longrightarrow>
            is_now_has_power now date_today slots_today = Inr True) \<and>
         (now = today_start + 10 * us_per_hour + 15 * us_per_minute \<and>
          slot_status slots_today ''10:00'' = 2 \<longrightarrow>
            is_now_has_power now date_today slots_today = Inr False)"
proof -
  note ok = day_ok [OF assms(1,2)]
  have al: "today_start mod HALF_HOUR = 0" "day_end mod HALF_HOUR = 0"
    using ok(3,4) by (simp_all add: day_aligned)
  have 1: "b = now - now mod HALF_HOUR \<and> b \<le> now \<and> now < b + HALF_HOUR"
    using round_down_bounds [of now] by (simp add: assms(3) round_down_eq)
  have 2: "(today_start \<le> b \<and> b < day_end) \<longleftrightarrow> (today_start \<le> now \<and> now < day_end)"
    unfolding assms(3) using round_down_ge [OF al(1)] round_down_lt [OF al(2)] by simp
  have 3: "today_start \<le> b \<and> b < day_end \<longrightarrow>
            is_now_has_power now date_today slots_today =
              Inr (slot_status slots_today (time_str_from_dt b) = 1) \<and>
            (slots_today (time_str_from_dt b) = None \<longrightarrow>
               is_now_has_power now date_today slots_today = Inr True)"
    using assms by (simp add: is_now_has_power_def Let_def slot_status_def)
  have 4: "\<not> (today_start \<le> b \<and> b < day_end) \<longrightarrow>
            is_now_has_power now date_today slots_today = Inr True"
    using assms by (simp add: is_now_has_power_def Let_def)
  have 5: "now = today_start + 10 * us_per_hour + 15 * us_per_minute \<and>
          slot_status slots_today ''10:00'' = 2 \<longrightarrow>
            is_now_has_power now date_today slots_today = Inr False"
  proof
    assume a: "now = today_start + 10 * us_per_hour + 15 * us_per_minute \<and>
          slot_status slots_today ''10:00'' = 2"
    have "(36900000000 + today_start) mod 1800000000 =
          (36900000000 mod 1800000000 + today_start mod 1800000000) mod (1800000000::int)"
      by (simp only: mod_add_eq)
    then have "(36900000000 + today_start) mod 1800000000 = 900000000"
      using al(1) by (simp add: HALF_HOUR_val)
    then have "now mod HALF_HOUR = 900000000"
      using a by (simp add: HALF_HOUR_val us_per_hour_def us_per_minute_def)
    then have b: "b = slot_time today_start 20"
      using a by (simp add: assms(3) round_down_eq slot_time_def HALF_HOUR_val us_per_hour_def us_per_minute_def)
    have "slot_time today_start 0 \<le> slot_time today_start 20" by (simp only: slot_time_le)
    then have in_day: "today_start \<le> b \<and> b < day_end"
      unfolding b ok(1) by (simp add: slot_time_def [of today_start 0])
    have "time_str_from_dt b = ''10:00''"
      unfolding b using time_str_slot_time [OF ok(3), of 20] by (simp add: slot_key_19_22)
    then show "is_now_has_power now date_today slots_today = Inr False"
      using 3 in_day a by simp
  qed
  show ?thesis using 1 2 3 4 5 by blast
qed

lemma date_2026_02_12: "date_to_dt ''2026-02-12'' = Inr 63906451200000000"
  by code_simp

lemma next_2026_02_12: "dt_add 63906451200000000 one_day = Inr 63906537600000000"
  by code_simp

theorem now_has_power_reads_enclosing_half_hour_witness:
  "round_down_to_half_hour 63906401700000000 = 63906400800000000 \<and>
   time_str_from_dt 63906401700000000 = ''10:15'' \<and>
   is_now_has_power 63906401700000000 ''2026-02-11'' [''10:00'' \<mapsto> 2] = Inr False \<and>
   is_now_has_power 63906401700000000 ''2026-02-11'' [''10:30'' \<mapsto> 2] = Inr True \<and>
   is_now_has_power 63906401700000000 ''2026-02-12'' [''10:00'' \<mapsto> 2] = Inr True"
proof -
  have b: "63906400800000000 = round_down_to_half_hour 63906401700000000"
    by (simp add: round_down_eq HALF_HOUR_val)
  have k: "time_str_from_dt 63906400800000000 = ''10:00''"
    using time_str_slot_time [OF mod_2026_02_11, of 20]
    by (simp add: slot_time_def HALF_HOUR_val slot_key_19_22)
  have n: "time_str_from_dt 63906401700000000 = ''10:15''"
    by code_simp
  have 1: "is_now_has_power 63906401700000000 ''2026-02-11'' [''10:00'' \<mapsto> 2] = Inr False"
    using now_has_power_reads_enclosing_half_hour
      [OF date_2026_02_11 next_2026_02_11 b, of "[''10:00'' \<mapsto> 2]"]
    by (simp add: us_per_hour_def us_per_minute_def slot_status_def k)
  have 2: "is_now_has_power 63906401700000000 ''2026-02-11'' [''10:30'' \<mapsto> 2] = Inr True"
    using now_has_power_reads_enclosing_half_hour
      [OF date_2026_02_11 next_2026_02_11 b, of "[''10:30'' \<mapsto> 2]"]
    by (simp add: k slot_status_def)
  have 3: "is_now_has_power 63906401700000000 ''2026-02-12'' [''10:00'' \<mapsto> 2] = Inr True"
    using now_has_power_reads_enclosing_half_hour
      [OF date_2026_02_12 next_2026_02_12 b, of "[''10:00'' \<mapsto> 2]"]
    by simp
  show ?thesis using b n 1 2 3 by simp
qed

lemma trailing_run:
  assumes "j < 48" "\<And>i. j \<le> i \<Longrightarrow> i < 48 \<Longrightarrow> slot_off slots d i"
  obtains a where "a \<le> j" "off_run slots d a 48"
proof -
  define P where "P a \<longleftrightarrow> (\<forall>i. a \<le> i \<and> i < 48 \<longrightarrow> slot_off slots d i)" for a
  define a where "a = (LEAST a. P a)"
  have Pj: "P j" using assms(2) by (simp add: P_def)
  then have Pa: "P a" unfolding a_def by (rule LeastI)
  have le: "a \<le> j" unfolding a_def using Pj by (rule Least_le)
  have "a = 0 \<or> \<not> slot_off slots d (a - 1)"
  proof (rule ccontr)
    assume "\<not> (a = 0 \<or> \<not> slot_off slots d (a - 1))"
    then have a0: "a \<noteq> 0" and o: "slot_off slots d (a - 1)" by auto
    have "P (a - 1)" unfolding P_def
    proof (intro allI impI)
      fix i assume i: "a - 1 \<le> i \<and> i < 48"
      show "slot_off slots d i"
      proof (cases "i = a - 1")
        case True then show ?thesis using o by simp
      next
        case False
        then have "a \<le> i" using i by linarith
        then show ?thesis using Pa i by (simp add: P_def)
      qed
    qed
    then have "a \<le> a - 1" unfolding a_def by (rule Least_le)
    then show False using a0 by simp
  qed
  then have "off_run slots d a 48"
    using Pa le assms(1) by (simp add: off_run_def run_start_def P_def)
  then show ?thesis using that le by blast
qed

lemma leading_run:
  assumes "slot_off slots d 0"
  obtains b where "off_run slots d 0 b"
proof -
  define P where "P b \<longleftrightarrow> 0 < b \<and> (b = 48 \<or> \<not> slot_off slots d b)" for b :: nat
  define b where "b = (LEAST b. P b)"
  have "P 48" by (simp add: P_def)
  then have Pb: "P b" and b48: "b \<le> 48" unfolding b_def by (rule LeastI, rule Least_le)
  have "\<forall>i. 0 \<le> i \<and> i < b \<longrightarrow> slot_off slots d i"
  proof (intro allI impI)
    fix i assume i: "0 \<le> i \<and> i < b"
    show "slot_off slots d i"
    proof (rule ccontr)
      assume n: "\<not> slot_off slots d i"
      have "i \<noteq> 0"
      proof
        assume "i = 0"
        then show False using n assms by simp
      qed
      then have "0 < i" by simp
      then have "P i" using n by (simp add: P_def)
      then have "b \<le> i" unfolding b_def by (rule Least_le)
      then show False using i by simp
    qed
  qed
  then have "off_run slots d 0 b" using Pb b48 by (simp add: off_run_def run_start_def P_def)
  then show ?thesis using that by blast
qed

lemma slot_index:
  assumes "d mod us_per_day = 0" "d \<le> now" "now < slot_time d 48"
  obtains j where "j < 48" "round_down_to_half_hour now = slot_time d j"
proof -
  have al: "d mod HALF_HOUR = 0" using assms(1) by (rule day_aligned)
  define q where "q = (now - d) div HALF_HOUR"
  have q0: "0 \<le> q" unfolding q_def using assms(2) by (simp add: HALF_HOUR_val)
  have "now - d < 48 * HALF_HOUR" using assms(3) by (simp add: slot_time_def)
  then have q48: "q < 48" unfolding q_def by (simp add: HALF_HOUR_val)
  have "(now - d) mod HALF_HOUR = now mod HALF_HOUR"
    using al by (metis mod_diff_right_eq diff_zero)
  then have "round_down_to_half_hour now = d + ((now - d) - (now - d) mod HALF_HOUR)"
    by (simp add: round_down_eq)
  also have "(now - d) - (now - d) mod HALF_HOUR = q * HALF_HOUR"
    unfolding q_def by (simp add: minus_mod_eq_div_mult)
  finally have "round_down_to_half_hour now = slot_time d (nat q)"
    using q0 by (simp add: slot_time_def)
  moreover have "nat q < 48" using q0 q48 by simp
  ultimately show ?thesis using that by blast
qed

lemma intervals_InrD:
  assumes "slots_to_off_intervals date_str slots = Inr ivs"
  obtains d where "date_to_dt date_str = Inr d" "dt_add d one_day = Inr (slot_time d 48)"
    "ivs = intervals (walk_prefix slots d 48)"
proof -
  from assms obtain w where w: "off_walk date_str slots = Inr w" "ivs = intervals w"
    by (auto simp: slots_to_off_intervals_def split: sum.splits)
  from w(1) obtain d where "date_to_dt date_str = Inr d" "dt_add d one_day = Inr (slot_time d 48)"
    "w = walk_prefix slots d 48" by (rule off_walk_InrD)
  then show ?thesis using that w(2) by blast
qed

lemma slot_key_0: "slot_key 0 = ''00:00''"
  by code_simp

text \<open>
  Claim C10. Let tomorrow's date be the day after today's, and let \<open>now\<close> lie in today
  inside an outage that runs to midnight: every slot of today from the one that contains
  \<open>now\<close> on is off. If tomorrow's slot \<^verbatim>\<open>"00:00"\<close> is off too, \<^verbatim>\<open>_find_next_outage\<close>
  returns tomorrow's 00:00: today's list holds the interval around \<open>now\<close>, closed at
  midnight, no interval of today starts after \<open>now\<close>, and tomorrow's list opens with an
  interval that starts at midnight. The continuation of the outage in progress is thus
  reported as the next outage.
\<close>

theorem outage_across_midnight_is_reported_as_next:
  assumes "date_to_dt date_today = Inr today_start"
    and "iter_half_hours today_start = Inr times_today"
    and "dt_add today_start one_day = Inr midnight"
    and "date_to_dt date_tomorrow = Inr midnight"
    and "slots_to_off_intervals date_today slots_today = Inr today_off"
    and "slots_to_off_intervals date_tomorrow slots_tomorrow = Inr tomorrow_off"
    and "today_start \<le> now" and "now < midnight"
    and "\<forall>t\<in>set times_today. round_down_to_half_hour now \<le> t \<longrightarrow>
           slot_status slots_today (time_str_from_dt t) = 2"
    and "slot_status slots_tomorrow ''00:00'' = 2"
  shows "find_next_outage now today_off tomorrow_off = Some midnight \<and>
         (\<exists>it\<in>set today_off. start it \<le> now \<and> now < end' it \<and> end' it = midnight) \<and>
         (\<exists>it\<in>set tomorrow_off. start it = midnight)"
proof -
  note ok = day_ok [OF assms(1,3)]
  from assms(1,2) obtain e where "dt_add today_start one_day = Inr e"
    and ts: "times_today = map (slot_time today_start) [0..<48]" by (rule iter_ok)
  have today: "today_off = intervals (walk_prefix slots_today today_start 48)"
    using ok(6) [of slots_today] assms(5) by simp
  from assms(6) obtain d' where "date_to_dt date_tomorrow = Inr d'"
    and tomorrow0: "tomorrow_off = intervals (walk_prefix slots_tomorrow d' 48)"
    by (rule intervals_InrD)
  then have tomorrow: "tomorrow_off = intervals (walk_prefix slots_tomorrow midnight 48)"
    using assms(4) by simp
  obtain j where j: "j < 48" "round_down_to_half_hour now = slot_time today_start j"
    using slot_index [OF ok(3) assms(7)] assms(8) ok(1) by blast
  have offs: "\<And>i. j \<le> i \<Longrightarrow> i < 48 \<Longrightarrow> slot_off slots_today today_start i"
  proof -
    fix i assume i: "j \<le> i" "i < 48"
    then have "slot_time today_start i \<in> set times_today" unfolding ts by simp
    moreover have "round_down_to_half_hour now \<le> slot_time today_start i" using i j by simp
    ultimately show "slot_off slots_today today_start i" using assms(9) by (simp add: slot_off_def)
  qed
  obtain a where a: "a \<le> j" "off_run slots_today today_start a 48"
    using trailing_run [OF j(1) offs] by blast
  let ?x = "\<lparr>start = slot_time today_start a, end' = slot_time today_start 48\<rparr>"
  have "?x \<in> set today_off" unfolding today final_set using a(2) by blast
  moreover have "start ?x \<le> now"
  proof -
    have "slot_time today_start a \<le> round_down_to_half_hour now" using a(1) j by simp
    then show ?thesis using round_down_bounds(1) [of now] by simp
  qed
  ultimately have 2: "\<exists>it\<in>set today_off. start it \<le> now \<and> now < end' it \<and> end' it = midnight"
    using assms(8) ok(1) by (intro bexI [of _ ?x]) simp_all
  have before: "\<forall>it\<in>set today_off. start it \<le> now"
  proof
    fix x assume "x \<in> set today_off"
    then obtain a' b' where x: "x = \<lparr>start = slot_time today_start a', end' = slot_time today_start b'\<rparr>"
      and r: "off_run slots_today today_start a' b'" unfolding today by (rule final_member)
    show "start x \<le> now"
    proof (rule ccontr)
      assume "\<not> start x \<le> now"
      then have "round_down_to_half_hour now < slot_time today_start a'"
        using x round_down_bounds(1) [of now] by simp
      then have "j < a'" using j by simp
      moreover have "a' < 48" using r by (simp add: off_run_def run_start_def)
      ultimately have "j \<le> a' - 1" "a' - 1 < 48" "a' \<noteq> 0" by simp_all
      then have "slot_off slots_today today_start (a' - 1)" "a' \<noteq> 0" using offs by simp_all
      then show False using r by (simp add: off_run_def run_start_def)
    qed
  qed
  have m: "midnight mod us_per_day = 0" by (rule ok(4))
  have "slot_off slots_tomorrow midnight 0"
    using assms(10) by (simp add: slot_off_key [OF m] slot_key_0)
  then obtain b where "off_run slots_tomorrow midnight 0 b" by (rule leading_run)
  then have "\<lparr>start = slot_time midnight 0, end' = slot_time midnight b\<rparr> \<in> set tomorrow_off"
    unfolding tomorrow final_set by blast
  then have 3: "\<exists>it\<in>set tomorrow_off. start it = midnight"
    by (intro bexI [of _ "\<lparr>start = slot_time midnight 0, end' = slot_time midnight b\<rparr>"])
       (simp_all add: slot_time_def)
  have after: "\<forall>it\<in>set tomorrow_off. midnight \<le> start it"
  proof
    fix x assume "x \<in> set tomorrow_off"
    then obtain a' b' where "x = \<lparr>start = slot_time midnight a', end' = slot_time midnight b'\<rparr>"
      unfolding tomorrow by (rule final_member)
    then show "midnight \<le> start x" by (simp add: slot_time_def HALF_HOUR_val)
  qed
  have 1: "find_next_outage now today_off tomorrow_off = Some midnight"
    unfolding find_next_outage_Some using 3 before after assms(8) by auto
  show ?thesis using 1 2 3 by blast
qed

lemma slot_key_46: "slot_key 46 = ''23:00''"
  by code_simp

lemma only_2300_2330:
  assumes "d mod us_per_day = 0" "k < 48"
  shows "slot_off [''23:00'' \<mapsto> 2, ''23:30'' \<mapsto> 2] d k \<longleftrightarrow> 46 \<le> k \<and> k < 48"
proof -
  have "slot_key k = ''23:00'' \<longleftrightarrow> k = 46" "slot_key k = ''23:30'' \<longleftrightarrow> k = 47"
    using slot_key_inj [of k 46] slot_key_inj [of k 47] assms(2)
    by (simp_all add: slot_key_46 slot_key_47)
  then show ?thesis using assms
    by (auto simp: slot_off_key slot_status_def)
qed

lemma only_0000:
  assumes "d mod us_per_day = 0" "k < 48"
  shows "slot_off [''00:00'' \<mapsto> 2] d k \<longleftrightarrow> 0 \<le> k \<and> k < 1"
proof -
  have "slot_key k = ''00:00'' \<longleftrightarrow> k = 0"
    using slot_key_inj [of k 0] assms(2) by (simp add: slot_key_0)
  then show ?thesis using assms
    by (auto simp: slot_off_key slot_status_def)
qed

theorem outage_across_midnight_is_reported_as_next_witness:
  "slots_to_off_intervals ''2026-02-11'' [''23:00'' \<mapsto> 2, ''23:30'' \<mapsto> 2] =
     Inr [\<lparr>start = 63906447600000000, end' = 63906451200000000\<rparr>] \<and>
   slots_to_off_intervals ''2026-02-12'' [''00:00'' \<mapsto> 2] =
     Inr [\<lparr>start = 63906451200000000, end' = 63906453000000000\<rparr>] \<and>
   time_str_from_dt 63906448500000000 = ''23:15'' \<and>
   find_next_outage 63906448500000000
     [\<lparr>start = 63906447600000000, end' = 63906451200000000\<rparr>]
     [\<lparr>start = 63906451200000000, end' = 63906453000000000\<rparr>] = Some 63906451200000000"
proof -
  let ?m1 = "[''23:00'' \<mapsto> 2, ''23:30'' \<mapsto> (2::int)]"
  let ?m2 = "[''00:00'' \<mapsto> (2::int)]"
  let ?d = "63906364800000000 :: int"
  have m2: "(63906451200000000::int) mod us_per_day = 0" by (simp add: us_per_day_def)
  have "intervals (walk_prefix ?m1 ?d 48) = [\<lparr>start = slot_time ?d 46, end' = slot_time ?d 48\<rparr>]"
    by (rule final_single, rule off_run_single)
       (simp_all add: only_2300_2330 [OF mod_2026_02_11])
  then have i1: "slots_to_off_intervals ''2026-02-11'' ?m1 =
     Inr [\<lparr>start = 63906447600000000, end' = 63906451200000000\<rparr>]"
    using day_ok(6) [OF date_2026_02_11 next_2026_02_11, of ?m1]
    by (simp add: slot_time_def HALF_HOUR_val)
  have "intervals (walk_prefix ?m2 63906451200000000 48) =
        [\<lparr>start = slot_time 63906451200000000 0, end' = slot_time 63906451200000000 1\<rparr>]"
    by (rule final_single, rule off_run_single) (simp_all add: only_0000 [OF m2])
  then have i2: "slots_to_off_intervals ''2026-02-12'' ?m2 =
     Inr [\<lparr>start = 63906451200000000, end' = 63906453000000000\<rparr>]"
    using day_ok(6) [OF date_2026_02_12 next_2026_02_12, of ?m2]
    by (simp add: slot_time_def HALF_HOUR_val)
  have n: "time_str_from_dt 63906448500000000 = ''23:15''" by code_simp
  have rd: "round_down_to_half_hour 63906448500000000 = slot_time ?d 46"
    by (simp add: round_down_eq slot_time_def HALF_HOUR_val)
  have h9: "\<forall>t\<in>set (map (slot_time ?d) [0..<48]).
             round_down_to_half_hour 63906448500000000 \<le> t \<longrightarrow>
             slot_status ?m1 (time_str_from_dt t) = 2"
  proof
    fix t assume "t \<in> set (map (slot_time ?d) [0..<48])"
    then obtain i where i: "i < 48" "t = slot_time ?d i" by auto
    show "round_down_to_half_hour 63906448500000000 \<le> t \<longrightarrow> slot_status ?m1 (time_str_from_dt t) = 2"
      using only_2300_2330 [OF mod_2026_02_11 i(1)] i
      by (simp only: rd slot_time_le slot_off_def) simp
  qed
  have h10: "slot_status ?m2 ''00:00'' = 2" by (simp add: slot_status_def)
  from outage_across_midnight_is_reported_as_next
    [OF date_2026_02_11 iter_2026_02_11 next_2026_02_11 date_2026_02_12 i1 i2 _ _ h9 h10]
  have "find_next_outage 63906448500000000
     [\<lparr>start = 63906447600000000, end' = 63906451200000000\<rparr>]
     [\<lparr>start = 63906451200000000, end' = 63906453000000000\<rparr>] = Some 63906451200000000"
    by simp
  then show ?thesis using i1 i2 n by simp
qed

lemma ceil_div_60: "- ((- n) div 60) = (n + 59) div (60::int)"
proof -
  define q where "q = n div 60"
  define r where "r = n mod 60"
  have n: "n = 60 * q + r" and r: "0 \<le> r" "r < 60" by (simp_all add: q_def r_def)
  show ?thesis
  proof (cases "r = 0")
    case True
    have "(- n) div 60 = - q" using n True by simp
    moreover have "(n + 59) div 60 = q"
      by (rule int_div_pos_eq [where r = 59]) (simp_all add: n True)
    ultimately show ?thesis by simp
  next
    case False
    have "(- n) div 60 = - q - 1"
      by (rule int_div_pos_eq [where r = "60 - r"]) (use n r False in simp_all)
    moreover have "(n + 59) div 60 = q + 1"
      by (rule int_div_pos_eq [where r = "r - 1"]) (use n r False in simp_all)
    ultimately show ?thesis by simp
  qed
qed

lemma spec_minutes_until_div:
  "spec_minutes_until now s = max (- ((now - s) div us_per_minute)) 0"
proof -
  have "\<lceil>(of_int (s - now) :: rat) / of_int us_per_minute\<rceil> = - (- (s - now) div us_per_minute)"
    by (rule ceiling_divide_eq_div)
  then show ?thesis by (simp add: spec_minutes_until_def)
qed

lemma minutes_until_whole_seconds:
  assumes "(s - now) mod 1000000 = 0"
  shows "next_outage_in_minutes now (Some s) = Some (spec_minutes_until now s)"
proof -
  from assms obtain n where n: "s - now = n * 1000000" by (metis mod_eq_0_iff_dvd dvd_def mult.commute)
  have m: "now - s = - (n * 1000000)" using n by simp
  have 1: "(n * 1000000 + 59000000) div 60000000 = (n + 59) div 60"
  proof -
    have "n * 1000000 + 59000000 = 1000000 * (n + 59)" by simp
    also have "\<dots> div 60000000 = (n + 59) div 60"
      using div_mult_mult1 [of 1000000 "n + 59" 60] by simp
    finally show ?thesis .
  qed
  have 2: "- ((- (n * 1000000)) div 60000000) = (n + 59) div 60"
  proof -
    have "(- (n * 1000000)) div 60000000 = (1000000 * (- n)) div (1000000 * 60)" by simp
    also have "\<dots> = (- n) div 60" by (rule div_mult_mult1) simp
    finally show ?thesis using ceil_div_60 [of n] by simp
  qed
  show ?thesis
    unfolding spec_minutes_until_div m us_per_minute_def 2
    by (simp add: next_outage_in_minutes_def n 1)
qed

lemma minutes_until_nonneg:
  "next_outage_in_minutes now (Some s) = Some m \<Longrightarrow> 0 \<le> m"
  by (auto simp: next_outage_in_minutes_def Let_def)

text \<open>
  Claim C8 fails on the code. Half a second before an outage that starts at 10:00 the
  duration rounded up to whole minutes is 1, and \<^verbatim>\<open>get_schedule\<close> computes 0: adding
  59 seconds before the floor division rounds up only a whole number of seconds, and
  \<^verbatim>\<open>datetime.now\<close> carries microseconds.
\<close>

theorem minutes_until_half_second_before:
  "(63906400799500000::int) < 63906400800000000 \<and>
   find_next_outage 63906400799500000
     [\<lparr>start = 63906400800000000, end' = 63906404400000000\<rparr>] [] = Some 63906400800000000 \<and>
   next_outage_in_minutes 63906400799500000 (Some 63906400800000000) = Some 0 \<and>
   spec_minutes_until 63906400799500000 63906400800000000 = 1"
  by (simp add: find_next_outage_def next_outage_in_minutes_def spec_minutes_until_div
      us_per_minute_def)

section \<open>Claims about the feed\<close>



















declare nat_digits.simps [simp del]

lemma digit_char_value: "0 \<le> d \<Longrightarrow> d < 10 \<Longrightarrow> int (of_char (digit_char d)) - 48 = d"
proof -
  assume d: "0 \<le> d" "d < 10"
  then have "48 + nat d < 256" by simp
  then have "(of_char (digit_char d) :: nat) = 48 + nat d"
    unfolding digit_char_def by (simp add: of_char_of take_bit_nat_eq_self_iff)
  then show ?thesis using d by simp
qed

lemma digit_char_not_bar: "0 \<le> d \<Longrightarrow> d < 10 \<Longrightarrow> digit_char d \<noteq> CHR ''|''"
  using digit_char_value [of d] by (auto simp: )

lemma digit_char_not_minus: "0 \<le> d \<Longrightarrow> d < 10 \<Longrightarrow> digit_char d \<noteq> CHR ''-''"
  using digit_char_value [of d] by (auto simp: )

lemma digits_value_snoc:
  "digits_value (s @ [c]) = 10 * digits_value s + (int (of_char c) - 48)"
  by (simp add: digits_value_def)

lemma digits_value_nat_digits: "digits_value (nat_digits n) = int n"
proof (induction n rule: nat_digits.induct)
  case (1 n)
  show ?case
  proof (cases "n < 10")
    case True
    then show ?thesis
      using digit_char_value [of "int n"] by (simp add: nat_digits.simps [of n] digits_value_def)
  next
    case False
    then have "digits_value (nat_digits (n div 10)) = int (n div 10)" using 1 by simp
    then show ?thesis using False digit_char_value [of "int (n mod 10)"]
      by (simp add: nat_digits.simps [of n] digits_value_snoc zdiv_int zmod_int)
  qed
qed

lemma nat_digits_chars: "c \<in> set (nat_digits n) \<Longrightarrow> c \<noteq> CHR ''|'' \<and> c \<noteq> CHR ''-''"
proof (induction n rule: nat_digits.induct)
  case (1 n)
  show ?case
  proof (cases "n < 10")
    case True
    then show ?thesis using 1(2) digit_char_not_bar [of "int n"] digit_char_not_minus [of "int n"]
      by (simp add: nat_digits.simps [of n])
  next
    case False
    then show ?thesis using 1 digit_char_not_bar [of "int (n mod 10)"]
        digit_char_not_minus [of "int (n mod 10)"]
      by (auto simp: nat_digits.simps [of n])
  qed
qed

lemma nat_digits_nonempty: "nat_digits n \<noteq> []"
  by (simp add: nat_digits.simps [of n])

lemma str_int_inj: "str_int i = str_int j \<Longrightarrow> i = j"
proof -
  assume e: "str_int i = str_int j"
  have hd_nonneg: "\<And>k. 0 \<le> k \<Longrightarrow> hd (str_int k) \<noteq> CHR ''-''"
    using nat_digits_chars nat_digits_nonempty by (simp add: str_int_def) (metis hd_in_set)
  have hd_neg: "\<And>k. k < 0 \<Longrightarrow> hd (str_int k) = CHR ''-''" by (simp add: str_int_def)
  have val_nonneg: "\<And>k. 0 \<le> k \<Longrightarrow> digits_value (str_int k) = k"
    by (simp add: str_int_def digits_value_nat_digits)
  have val_neg: "\<And>k. k < 0 \<Longrightarrow> digits_value (tl (str_int k)) = - k"
    by (simp add: str_int_def digits_value_nat_digits)
  show "i = j"
  proof (cases "i < 0")
    case True
    have "j < 0"
    proof (rule ccontr)
      assume "\<not> j < 0"
      then have "hd (str_int j) \<noteq> CHR ''-''" using hd_nonneg [of j] by simp
      moreover have "hd (str_int j) = CHR ''-''" using hd_neg [OF True] by (simp only: e)
      ultimately show False by simp
    qed
    then have "- j = digits_value (tl (str_int j))" by (simp only: val_neg)
    also have "\<dots> = digits_value (tl (str_int i))" by (simp only: e)
    also have "\<dots> = - i" using True by (simp only: val_neg)
    finally show ?thesis by simp
  next
    case False
    have "\<not> j < 0"
    proof
      assume "j < 0"
      then have "hd (str_int j) = CHR ''-''" by (rule hd_neg)
      then have "hd (str_int i) = CHR ''-''" by (simp only: e)
      moreover have "hd (str_int i) \<noteq> CHR ''-''" using False by (intro hd_nonneg) simp
      ultimately show False by simp
    qed
    then have "j = digits_value (str_int j)" by (simp only: val_nonneg not_less)
    also have "\<dots> = digits_value (str_int i)" by (simp only: e)
    also have "\<dots> = i" using False by (simp only: val_nonneg not_less)
    finally show ?thesis by simp
  qed
qed

lemma str_int_no_bar: "CHR ''|'' \<notin> set (str_int i)"
  using nat_digits_chars by (auto simp: str_int_def)

lemma append_sep_cancel:
  assumes "v @ c # x = v' @ c # y" "c \<notin> set v" "c \<notin> set v'"
  shows "v = v' \<and> x = y"
  using assms
proof (induction v arbitrary: v')
  case Nil
  then show ?case by (cases v') auto
next
  case (Cons a v)
  then show ?case by (cases v') auto
qed

lemma same_prefix_sep:
  assumes "same_prefix c x y" "x @ c # t = y @ c # t'"
  shows "x = y \<and> t = t'"
proof -
  from assms(1) obtain p v v' where "x = p @ v" "y = p @ v'" "c \<notin> set v" "c \<notin> set v'"
    unfolding same_prefix_def by blast
  then show ?thesis using assms(2) append_sep_cancel [of v c t v' t'] by simp
qed

lemma join_Cons: "ys \<noteq> [] \<Longrightarrow> join sep (x # ys) = x @ sep @ join sep ys"
  by (cases ys) simp_all

lemma join_sep_inj:
  assumes "list_all2 (same_prefix c) xs ys" "xs \<noteq> []"
    "join [c] xs @ c # t = join [c] ys @ c # t'"
  shows "xs = ys \<and> t = t'"
  using assms
proof (induction xs ys rule: list_all2_induct)
  case Nil
  then show ?case by simp
next
  case (Cons x xs y ys)
  show ?case
  proof (cases "xs = []")
    case True
    then have "ys = []" using Cons.hyps(2) by simp
    then show ?thesis using True Cons.prems same_prefix_sep [OF Cons.hyps(1)] by simp
  next
    case False
    then have ys: "ys \<noteq> []" using Cons.hyps(2) by auto
    have "x @ c # (join [c] xs @ c # t) = y @ c # (join [c] ys @ c # t')"
      using Cons.prems(2) by (simp add: join_Cons False ys)
    then have "x = y" "join [c] xs @ c # t = join [c] ys @ c # t'"
      using same_prefix_sep [OF Cons.hyps(1)] by blast+
    then show ?thesis using Cons.IH False by simp
  qed
qed

lemma join_inj:
  assumes "list_all2 (same_prefix c) xs ys" "join [c] xs = join [c] ys"
  shows "xs = ys"
  using assms
proof (induction xs ys rule: list_all2_induct)
  case Nil
  then show ?case by simp
next
  case (Cons x xs y ys)
  show ?case
  proof (cases "xs = []")
    case True
    then have "ys = []" using Cons.hyps(2) by simp
    then show ?thesis using True Cons.prems by simp
  next
    case False
    then have ys: "ys \<noteq> []" using Cons.hyps(2) by auto
    have "x @ c # join [c] xs = y @ c # join [c] ys"
      using Cons.prems by (simp add: join_Cons False ys)
    then have "x = y" "join [c] xs = join [c] ys"
      using same_prefix_sep [OF Cons.hyps(1)] by blast+
    then show ?thesis using Cons.IH by simp
  qed
qed

lemma slot_part_same_prefix: "same_prefix CHR ''|'' (slot_part date_str a t) (slot_part date_str b t)"
  unfolding same_prefix_def
  by (rule exI [of _ "date_str @ '' '' @ time_str_from_dt t @ ''=''"],
      rule exI [of _ "str_int (slot_status a (time_str_from_dt t))"],
      rule exI [of _ "str_int (slot_status b (time_str_from_dt t))"])
     (simp add: slot_part_def Let_def str_int_no_bar)

lemma slot_part_inj:
  "slot_part date_str a t = slot_part date_str b t \<Longrightarrow>
   slot_status a (time_str_from_dt t) = slot_status b (time_str_from_dt t)"
  by (simp add: slot_part_def Let_def str_int_inj)

lemma normalized_closed:
  assumes "date_to_dt date_str = Inr d" "dt_add d one_day = Inr e"
  shows "slots_normalized_for_hash date_str slots =
         Inr (join ''|'' (map (slot_part date_str slots) (map (slot_time d) [0..<48])))"
proof -
  have "0 \<le> d" using assms(1) by (rule date_to_dt_midnight)
  from iter_half_hours_closed(1) [OF this assms(2)] assms(1) show ?thesis
    by (simp add: slots_normalized_for_hash_def)
qed

lemma normalized_InrD:
  assumes "slots_normalized_for_hash date_str slots = Inr x"
  obtains d e where "date_to_dt date_str = Inr d" "dt_add d one_day = Inr e"
proof -
  from assms obtain d ts where "date_to_dt date_str = Inr d" "iter_half_hours d = Inr ts"
    by (auto simp: slots_normalized_for_hash_def split: sum.splits)
  then show ?thesis using that by (auto elim: iter_ok)
qed

lemma normalized_cong:
  assumes "\<forall>key\<in>set half_hour_keys. slot_status a key = slot_status b key"
  shows "slots_normalized_for_hash date_str a = slots_normalized_for_hash date_str b"
proof (cases "slots_normalized_for_hash date_str a")
  case (Inl err)
  then show ?thesis
    by (auto simp: slots_normalized_for_hash_def split: sum.splits)
next
  case (Inr x)
  then obtain d e where d: "date_to_dt date_str = Inr d" "dt_add d one_day = Inr e"
    by (rule normalized_InrD)
  have m: "d mod us_per_day = 0" using d(1) by (rule date_to_dt_midnight)
  have "map (slot_part date_str a) (map (slot_time d) [0..<48]) =
        map (slot_part date_str b) (map (slot_time d) [0..<48])"
  proof (rule map_cong [OF refl])
    fix t assume "t \<in> set (map (slot_time d) [0..<48])"
    then obtain k where k: "k < 48" "t = slot_time d k" by auto
    then have "time_str_from_dt t \<in> set half_hour_keys"
      using time_str_slot_time [OF m] by (simp add: half_hour_keys_def)
    then show "slot_part date_str a t = slot_part date_str b t"
      using assms by (simp add: slot_part_def)
  qed
  then show ?thesis by (simp only: normalized_closed [OF d])
qed

lemma text_inj:
  assumes "slots_normalized_for_hash d1 a1 = Inr x1" "slots_normalized_for_hash d2 a2 = Inr x2"
    "slots_normalized_for_hash d1 b1 = Inr y1" "slots_normalized_for_hash d2 b2 = Inr y2"
    "x1 @ ''||'' @ x2 = y1 @ ''||'' @ y2"
  shows "\<forall>key\<in>set half_hour_keys.
           slot_status a1 key = slot_status b1 key \<and> slot_status a2 key = slot_status b2 key"
proof -
  from assms(1) obtain t1 e1 where t1: "date_to_dt d1 = Inr t1" "dt_add t1 one_day = Inr e1"
    by (rule normalized_InrD)
  from assms(2) obtain t2 e2 where t2: "date_to_dt d2 = Inr t2" "dt_add t2 one_day = Inr e2"
    by (rule normalized_InrD)
  let ?ts1 = "map (slot_time t1) [0..<48]"
  let ?ts2 = "map (slot_time t2) [0..<48]"
  have x: "x1 = join ''|'' (map (slot_part d1 a1) ?ts1)" "y1 = join ''|'' (map (slot_part d1 b1) ?ts1)"
    "x2 = join ''|'' (map (slot_part d2 a2) ?ts2)" "y2 = join ''|'' (map (slot_part d2 b2) ?ts2)"
    using assms(1-4) normalized_closed [OF t1] normalized_closed [OF t2] by simp_all
  have l1: "list_all2 (same_prefix CHR ''|'') (map (slot_part d1 a1) ?ts1) (map (slot_part d1 b1) ?ts1)"
    by (simp add: list_all2_map1 list_all2_map2 list_all2_same slot_part_same_prefix del: map_map)
  have l2: "list_all2 (same_prefix CHR ''|'') (map (slot_part d2 a2) ?ts2) (map (slot_part d2 b2) ?ts2)"
    by (simp add: list_all2_map1 list_all2_map2 list_all2_same slot_part_same_prefix del: map_map)
  have ne: "map (slot_part d1 a1) ?ts1 \<noteq> []" by simp
  have "join ''|'' (map (slot_part d1 a1) ?ts1) @ CHR ''|'' # (CHR ''|'' # x2) =
        join ''|'' (map (slot_part d1 b1) ?ts1) @ CHR ''|'' # (CHR ''|'' # y2)"
    using assms(5) unfolding x(1,2) by simp
  from join_sep_inj [OF l1 ne this]
  have p1: "map (slot_part d1 a1) ?ts1 = map (slot_part d1 b1) ?ts1" and "x2 = y2" by simp_all
  then have p2: "map (slot_part d2 a2) ?ts2 = map (slot_part d2 b2) ?ts2"
    using join_inj [OF l2] unfolding x(3,4) by simp
  have m1: "t1 mod us_per_day = 0" and m2: "t2 mod us_per_day = 0"
    using t1(1) t2(1) by (auto dest: date_to_dt_midnight)
  show ?thesis
  proof
    fix key assume "key \<in> set half_hour_keys"
    then obtain k where k: "k < 48" "key = slot_key k" by (auto simp: half_hour_keys_def)
    have i1: "slot_time t1 k \<in> set ?ts1" and i2: "slot_time t2 k \<in> set ?ts2" using k by simp_all
    have "slot_part d1 a1 (slot_time t1 k) = slot_part d1 b1 (slot_time t1 k)"
      using p1 i1 by (meson map_eq_conv)
    moreover have "slot_part d2 a2 (slot_time t2 k) = slot_part d2 b2 (slot_time t2 k)"
      using p2 i2 by (meson map_eq_conv)
    ultimately show "slot_status a1 key = slot_status b1 key \<and> slot_status a2 key = slot_status b2 key"
      using slot_part_inj [of d1 a1 "slot_time t1 k" b1] slot_part_inj [of d2 a2 "slot_time t2 k" b2]
        time_str_slot_time [OF m1 k(1)] time_str_slot_time [OF m2 k(1)] k(2) by simp
  qed
qed

lemma hash_schedule_text:
  "hash_schedule date_today slots_today date_tomorrow slots_tomorrow =
     (case schedule_text date_today slots_today date_tomorrow slots_tomorrow of
        Inl e \<Rightarrow> Inl e
      | Inr s \<Rightarrow> Inr (hexdigest (sha256 s)))"
  by (simp add: hash_schedule_def schedule_text_def Let_def split: sum.splits)

lemma schedule_text_inj:
  assumes "schedule_text d1 a1 d2 a2 = Inr s" "schedule_text d1 b1 d2 b2 = Inr s"
  shows "\<forall>key\<in>set half_hour_keys.
           slot_status a1 key = slot_status b1 key \<and> slot_status a2 key = slot_status b2 key"
proof -
  from assms(1) obtain x1 x2 where x: "slots_normalized_for_hash d1 a1 = Inr x1"
    "slots_normalized_for_hash d2 a2 = Inr x2" "s = x1 @ ''||'' @ x2"
    by (auto simp: schedule_text_def split: sum.splits)
  from assms(2) obtain y1 y2 where y: "slots_normalized_for_hash d1 b1 = Inr y1"
    "slots_normalized_for_hash d2 b2 = Inr y2" "s = y1 @ ''||'' @ y2"
    by (auto simp: schedule_text_def split: sum.splits)
  show ?thesis using text_inj [OF x(1,2) y(1,2)] x(3) y(3) by simp
qed

section \<open>Claim about the change fingerprint\<close>

text \<open>
  Claim C5, as amended. Two inputs whose effective status (the value stored, or 1 for a
  key that is absent) agrees at the 48 keys of each day have the same fingerprint,
  whichever keys are physically present (a slot map has no order). The fingerprint is the
  SHA-256 digest of a text, and two inputs with the same dates whose effective status
  differs at any one of the 96 slots of the two days have different texts; their
  fingerprints are the digests of two different texts and differ unless SHA-256
  collides on them.
\<close>

theorem fingerprint_of_effective_status:
  "((\<forall>key\<in>set half_hour_keys. slot_status a1 key = slot_status b1 key) \<and>
    (\<forall>key\<in>set half_hour_keys. slot_status a2 key = slot_status b2 key) \<longrightarrow>
      hash_schedule date_today a1 date_tomorrow a2 = hash_schedule date_today b1 date_tomorrow b2) \<and>
   (\<forall>s s'. schedule_text date_today a1 date_tomorrow a2 = Inr s \<and>
           schedule_text date_today b1 date_tomorrow b2 = Inr s' \<longrightarrow>
      hash_schedule date_today a1 date_tomorrow a2 = Inr (hexdigest (sha256 s)) \<and>
      hash_schedule date_today b1 date_tomorrow b2 = Inr (hexdigest (sha256 s')) \<and>
      ((\<exists>key\<in>set half_hour_keys.
          slot_status a1 key \<noteq> slot_status b1 key \<or> slot_status a2 key \<noteq> slot_status b2 key) \<longrightarrow>
       s \<noteq> s')) \<and>
   length half_hour_keys = 48 \<and> distinct half_hour_keys \<and>
   hd half_hour_keys = ''00:00'' \<and> last half_hour_keys = ''23:30''"
proof -
  have 1: "(\<forall>key\<in>set half_hour_keys. slot_status a1 key = slot_status b1 key) \<and>
    (\<forall>key\<in>set half_hour_keys. slot_status a2 key = slot_status b2 key) \<longrightarrow>
      hash_schedule date_today a1 date_tomorrow a2 = hash_schedule date_today b1 date_tomorrow b2"
  proof
    assume h: "(\<forall>key\<in>set half_hour_keys. slot_status a1 key = slot_status b1 key) \<and>
      (\<forall>key\<in>set half_hour_keys. slot_status a2 key = slot_status b2 key)"
    have "slots_normalized_for_hash date_today a1 = slots_normalized_for_hash date_today b1"
      "slots_normalized_for_hash date_tomorrow a2 = slots_normalized_for_hash date_tomorrow b2"
      using h by (simp_all add: normalized_cong)
    then show "hash_schedule date_today a1 date_tomorrow a2 =
               hash_schedule date_today b1 date_tomorrow b2"
      by (simp only: hash_schedule_def)
  qed
  have 2: "\<forall>s s'. schedule_text date_today a1 date_tomorrow a2 = Inr s \<and>
           schedule_text date_today b1 date_tomorrow b2 = Inr s' \<longrightarrow>
      hash_schedule date_today a1 date_tomorrow a2 = Inr (hexdigest (sha256 s)) \<and>
      hash_schedule date_today b1 date_tomorrow b2 = Inr (hexdigest (sha256 s')) \<and>
      ((\<exists>key\<in>set half_hour_keys.
          slot_status a1 key \<noteq> slot_status b1 key \<or> slot_status a2 key \<noteq> slot_status b2 key) \<longrightarrow>
       s \<noteq> s')"
    using schedule_text_inj [of date_today a1 date_tomorrow a2 _ b1 b2]
    by (auto simp: hash_schedule_text)
  have 3: "length half_hour_keys = 48 \<and> distinct half_hour_keys \<and>
           hd half_hour_keys = ''00:00'' \<and> last half_hour_keys = ''23:30''"
    using slot_keys_distinct by (simp add: half_hour_keys_def) (simp add: slot_keys)
  show ?thesis using 1 2 3 by blast
qed

lemma schedule_text_2026:
  "schedule_text ''2026-02-11'' a ''2026-02-12'' b =
     Inr (join ''|'' (map (slot_part ''2026-02-11'' a) (map (slot_time 63906364800000000) [0..<48])) @
          ''||'' @
          join ''|'' (map (slot_part ''2026-02-12'' b) (map (slot_time 63906451200000000) [0..<48])))"
  by (simp only: schedule_text_def normalized_closed [OF date_2026_02_11 next_2026_02_11]
      normalized_closed [OF date_2026_02_12 next_2026_02_12] sum.case)

lemma key_1000: "''10:00'' \<in> set half_hour_keys"
  unfolding half_hour_keys_def slot_keys by simp

lemma key_0000: "''00:00'' \<in> set half_hour_keys"
  unfolding half_hour_keys_def slot_keys by simp

theorem fingerprint_of_effective_status_witness:
  "hash_schedule ''2026-02-11'' Map.empty ''2026-02-12'' [''00:00'' \<mapsto> 2] =
   hash_schedule ''2026-02-11'' [''10:00'' \<mapsto> 1] ''2026-02-12'' [''00:00'' \<mapsto> 2] \<and>
   schedule_text ''2026-02-11'' Map.empty ''2026-02-12'' [''00:00'' \<mapsto> 2] \<noteq>
   schedule_text ''2026-02-11'' [''10:00'' \<mapsto> 2] ''2026-02-12'' [''00:00'' \<mapsto> 2]"
proof -
  let ?b = "[''00:00'' \<mapsto> (2::int)]"
  have same: "(\<forall>key\<in>set half_hour_keys.
                 slot_status Map.empty key = slot_status [''10:00'' \<mapsto> 1] key) \<and>
              (\<forall>key\<in>set half_hour_keys. slot_status ?b key = slot_status ?b key)"
    by (simp add: slot_status_def)
  have 1: "hash_schedule ''2026-02-11'' Map.empty ''2026-02-12'' ?b =
           hash_schedule ''2026-02-11'' [''10:00'' \<mapsto> 1] ''2026-02-12'' ?b"
    using fingerprint_of_effective_status
      [of Map.empty "[''10:00'' \<mapsto> 1]" ?b ?b "''2026-02-11''" "''2026-02-12''"] same
    by blast
  have diff: "\<exists>key\<in>set half_hour_keys.
      slot_status Map.empty key \<noteq> slot_status [''10:00'' \<mapsto> 2] key \<or>
      slot_status ?b key \<noteq> slot_status ?b key"
    using key_1000 by (intro bexI [of _ "''10:00''"]) (simp_all add: slot_status_def)
  obtain s s' where s: "schedule_text ''2026-02-11'' Map.empty ''2026-02-12'' ?b = Inr s"
    "schedule_text ''2026-02-11'' [''10:00'' \<mapsto> 2] ''2026-02-12'' ?b = Inr s'"
    using schedule_text_2026 by blast
  have "s \<noteq> s'"
    using fingerprint_of_effective_status
      [of Map.empty "[''10:00'' \<mapsto> 2]" ?b ?b "''2026-02-11''" "''2026-02-12''"] s diff
    by blast
  then show ?thesis using 1 s by simp
qed

lemma hex32_shape: "length (hex32 x) = 8 \<and> set (hex32 x) \<subseteq> hex_char ` {0..15}"
proof -
  have "\<And>i. (uint x div 16 ^ (7 - i)) mod 16 \<in> {0..15}" by simp
  then show ?thesis unfolding hex32_def by (auto simp del: atLeastAtMost_iff)
qed

lemma hexdigest_shape:
  "hexdigest s \<in> {xs. set xs \<subseteq> hex_char ` {0..15} \<and> length xs = 64}"
proof -
  obtain a b c d e f g h where s: "s = (a, b, c, d, e, f, g, h)" by (cases s) auto
  show ?thesis
    using hex32_shape [of a] hex32_shape [of b] hex32_shape [of c] hex32_shape [of d]
      hex32_shape [of e] hex32_shape [of f] hex32_shape [of g] hex32_shape [of h]
    by (simp add: hexdigest_def s)
qed

lemma digests_card:
  "finite {xs. set xs \<subseteq> hex_char ` {0..15} \<and> length xs = 64}"
  "card {xs. set xs \<subseteq> hex_char ` {0..15} \<and> length xs = 64} \<le> 16 ^ 64"
proof -
  let ?H = "hex_char ` {0..15}"
  have f: "finite ?H" by simp
  show "finite {xs. set xs \<subseteq> ?H \<and> length xs = 64}" using f by (rule finite_lists_length_eq)
  have "card ?H \<le> card {0..15::int}" by (rule card_image_le) simp
  then have "card ?H \<le> 16" by simp
  then have "card ?H ^ 64 \<le> 16 ^ 64" by (rule power_mono) simp
  then show "card {xs. set xs \<subseteq> ?H \<and> length xs = 64} \<le> 16 ^ 64"
    by (simp only: card_lists_length_eq [OF f])
qed

text \<open>
  The claim as stated, that a change of any single slot's status changes the fingerprint,
  is false: a status is any integer, a fingerprint is one of \<open>16\<^bsup>64\<^esup>\<close> strings, so among
  the statuses \<open>0, \<dots>, 2\<^bsup>256\<^esup>\<close> of the slot \<^verbatim>\<open>"00:00"\<close> two give the same fingerprint.
\<close>

theorem fingerprint_single_slot_counterexample:
  "\<not> (\<forall>slots slots'.
        (\<exists>key\<in>set half_hour_keys. slot_status slots key \<noteq> slot_status slots' key \<and>
           (\<forall>key'\<in>set half_hour_keys. key' \<noteq> key \<longrightarrow>
              slot_status slots key' = slot_status slots' key')) \<longrightarrow>
        hash_schedule ''2026-02-11'' slots ''2026-02-12'' Map.empty \<noteq>
        hash_schedule ''2026-02-11'' slots' ''2026-02-12'' Map.empty)"
proof
  assume a: "\<forall>slots slots'.
        (\<exists>key\<in>set half_hour_keys. slot_status slots key \<noteq> slot_status slots' key \<and>
           (\<forall>key'\<in>set half_hour_keys. key' \<noteq> key \<longrightarrow>
              slot_status slots key' = slot_status slots' key')) \<longrightarrow>
        hash_schedule ''2026-02-11'' slots ''2026-02-12'' Map.empty \<noteq>
        hash_schedule ''2026-02-11'' slots' ''2026-02-12'' Map.empty"
  define f :: "int \<Rightarrow> error + string" where
    "f v = hash_schedule ''2026-02-11'' [''00:00'' \<mapsto> v] ''2026-02-12'' Map.empty" for v
  let ?D = "{xs. set xs \<subseteq> hex_char ` {0..15} \<and> length xs = 64}"
  let ?A = "{0..(2::int) ^ 256}"
  have "f v \<in> Inr ` ?D" for v
    unfolding f_def hash_schedule_text schedule_text_2026 using hexdigest_shape by simp
  then have sub: "f ` ?A \<subseteq> Inr ` ?D" by blast
  have "card (f ` ?A) \<le> card (Inr ` ?D :: (error + string) set)"
    using sub digests_card(1) by (intro card_mono) simp_all
  also have "\<dots> \<le> card ?D" by (rule card_image_le [OF digests_card(1)])
  also have "\<dots> \<le> 16 ^ 64" by (rule digests_card(2))
  also have "\<dots> < card ?A" by simp
  finally have "\<not> inj_on f ?A" by (rule pigeonhole)
  then obtain x y where xy: "x \<noteq> y" "f x = f y" by (auto simp: inj_on_def)
  have "\<exists>key\<in>set half_hour_keys.
          slot_status [''00:00'' \<mapsto> x] key \<noteq> slot_status [''00:00'' \<mapsto> y] key \<and>
          (\<forall>key'\<in>set half_hour_keys. key' \<noteq> key \<longrightarrow>
             slot_status [''00:00'' \<mapsto> x] key' = slot_status [''00:00'' \<mapsto> y] key')"
    using key_0000 xy(1) by (intro bexI [of _ "''00:00''"]) (simp_all add: slot_status_def)
  then have "f x \<noteq> f y" unfolding f_def using a by blast
  then show False using xy(2) by simp
qed

end
